theory Spec2Isabelle
  imports Main
begin

section \<open>Characters and the string operations of the Python library\<close>

text \<open>
  A Python \<open>str\<close> is modelled as a \<open>string\<close>, one \<open>char\<close> per code point. The model
  covers texts whose code points are below 256 (what the \<open>latin-1\<close> decoding of the
  script produces, and every ASCII file). The predicates below are the Unicode ones of
  CPython restricted to that range:
  \<^item> \<open>isspace\<close> is \<open>str.isspace\<close>, which is also the class \<open>\s\<close> of \<open>re\<close> and the set
    removed by \<open>str.strip()\<close>: U+0009..U+000D, U+001C..U+0020, U+0085, U+00A0;
  \<^item> \<open>isword\<close> is the class \<open>\w\<close> of \<open>re\<close> (alphanumeric or underscore), used by \<open>\b\<close>;
  \<^item> \<open>toupper_full\<close> is the per-character mapping of \<open>str.upper()\<close>; U+00DF becomes
    \<open>SS\<close>. The upper-case forms of U+00B5 and U+00FF lie beyond the range and these
    two characters are left as they are here.
\<close>

definition ord :: "char \<Rightarrow> nat" where
  "ord c = of_char c"

definition isspace :: "char \<Rightarrow> bool" where
  "isspace c \<longleftrightarrow> (9 \<le> ord c \<and> ord c \<le> 13) \<or> (28 \<le> ord c \<and> ord c \<le> 32)
                 \<or> ord c = 133 \<or> ord c = 160"

definition isword :: "char \<Rightarrow> bool" where
  "isword c \<longleftrightarrow> (48 \<le> ord c \<and> ord c \<le> 57) \<or> (65 \<le> ord c \<and> ord c \<le> 90) \<or> ord c = 95
               \<or> (97 \<le> ord c \<and> ord c \<le> 122)
               \<or> ord c \<in> {170, 178, 179, 181, 185, 186, 188, 189, 190}
               \<or> (192 \<le> ord c \<and> ord c \<le> 214) \<or> (216 \<le> ord c \<and> ord c \<le> 246)
               \<or> (248 \<le> ord c \<and> ord c \<le> 255)"

definition toupper_full :: "char \<Rightarrow> string" where
  "toupper_full c =
     (if 97 \<le> ord c \<and> ord c \<le> 122 then [char_of (ord c - 32)]
      else if ord c = 223 then ''SS''
      else if 224 \<le> ord c \<and> ord c \<le> 254 \<and> ord c \<noteq> 247 then [char_of (ord c - 32)]
      else [c])"

definition upper :: "string \<Rightarrow> string" where
  "upper s = concat (map toupper_full s)"

definition strip :: "string \<Rightarrow> string" where
  "strip s = rev (dropWhile isspace (rev (dropWhile isspace s)))"

definition startswith :: "string \<Rightarrow> string \<Rightarrow> bool" where
  "startswith s p \<longleftrightarrow> take (length p) s = p"

text \<open>The slice \<open>text[a:b]\<close> for \<open>0 \<le> a\<close>, \<open>0 \<le> b\<close>: empty when \<open>b \<le> a\<close>, clamped at the end.\<close>

definition slice :: "string \<Rightarrow> nat \<Rightarrow> nat \<Rightarrow> string" where
  "slice text a b = take (b - a) (drop a text)"

text \<open>\<open>str(val)\<close> for a non-negative integer.\<close>

function str_of_nat :: "nat \<Rightarrow> string" where
  "str_of_nat n = (if n < 10 then [char_of (48 + n)]
                   else str_of_nat (n div 10) @ [char_of (48 + n mod 10)])"
  by pat_completeness auto
termination
  by (relation "measure id") auto

declare str_of_nat.simps [simp del]


section \<open>The two regular expressions\<close>

text \<open>
  Both patterns are compiled with \<open>(?i)\<close>. Their literal characters are ASCII, and on
  code points below 256 a character matches an ASCII letter of the pattern exactly when
  it is that letter in either case.
\<close>

definition tolower :: "char \<Rightarrow> char" where
  "tolower c = (if 65 \<le> ord c \<and> ord c \<le> 90 then char_of (ord c + 32) else c)"

text \<open>\<open>lit p s\<close> matches the literal \<open>p\<close> at the head of \<open>s\<close>, ignoring case, and
  returns what follows it.\<close>

fun lit :: "string \<Rightarrow> string \<Rightarrow> string option" where
  "lit [] s = Some s"
| "lit (p # ps) [] = None"
| "lit (p # ps) (c # cs) = (if tolower c = tolower p then lit ps cs else None)"

subsection \<open>\<open>TYPE_RE = (?is)<type>\s*([^<]+)\s*</type>\<close>\<close>

text \<open>
  One match attempt at the head of \<open>s\<close>; the result is \<open>group(1)\<close>. After \<open><type>\<close> the
  greedy \<open>[^<]+\<close> runs to the next \<open><\<close>, where the second \<open>\s*\<close> is empty and
  \<open></type>\<close> has to match; giving characters back never reaches another \<open><\<close>. The first
  \<open>\s*\<close> is greedy too: the group starts after the leading white space of the body,
  unless the body is white space only, when \<open>\s*\<close> gives back its last character to
  \<open>[^<]+\<close>. An empty body does not match.
\<close>

definition TYPE_RE_match :: "string \<Rightarrow> string option" where
  "TYPE_RE_match s =
     (case lit ''<type>'' s of
        None \<Rightarrow> None
      | Some r \<Rightarrow>
          let body = takeWhile (\<lambda>c. c \<noteq> CHR ''<'') r;
              rest = dropWhile (\<lambda>c. c \<noteq> CHR ''<'') r
          in if body = [] then None
             else (case lit ''</type>'' rest of
                     None \<Rightarrow> None
                   | Some _ \<Rightarrow>
                       let g = dropWhile isspace body
                       in Some (if g = [] then [last body] else g)))"

text \<open>\<open>TYPE_RE.search(inner)\<close>: the first position with a match, scanning from the left.\<close>

fun TYPE_RE_search :: "string \<Rightarrow> string option" where
  "TYPE_RE_search [] = TYPE_RE_match []"
| "TYPE_RE_search (c # cs) =
     (case TYPE_RE_match (c # cs) of
        Some g \<Rightarrow> Some g
      | None \<Rightarrow> TYPE_RE_search cs)"

subsection \<open>\<open>ITEM_RE = (?ims)(^[ \t]*)<Item\b[^>]*>(.*?)</Item>\<close>\<close>

text \<open>The lazy \<open>(.*?)</Item>\<close>: the first closing tag at or after the head of \<open>s\<close>;
  returns \<open>group(2)\<close> and what follows the closing tag.\<close>

fun lazy_close :: "string \<Rightarrow> (string \<times> string) option" where
  "lazy_close [] = None"
| "lazy_close (c # cs) =
     (case lit ''</Item>'' (c # cs) of
        Some r \<Rightarrow> Some ([], r)
      | None \<Rightarrow> (case lazy_close cs of
                   None \<Rightarrow> None
                 | Some (inner, r) \<Rightarrow> Some (c # inner, r)))"

text \<open>
  One match attempt at a position where \<open>^\<close> holds, \<open>s\<close> being the text from there on.
  \<open>[ \t]*\<close> takes every blank and tab (the next pattern character is \<open><\<close>); \<open>\b\<close> comes
  after the word character \<open>m\<close>, so it holds at the end of the text or before a non-word
  character; \<open>[^>]*>\<close> runs to the first \<open>>\<close>. The result is the length of the match,
  \<open>group(1)\<close> and \<open>group(2)\<close>.
\<close>

definition ITEM_RE_match :: "string \<Rightarrow> (nat \<times> string \<times> string) option" where
  "ITEM_RE_match s =
     (let indent = takeWhile (\<lambda>c. c = CHR '' '' \<or> c = CHR 0x09) s;
          r0 = dropWhile (\<lambda>c. c = CHR '' '' \<or> c = CHR 0x09) s
      in case lit ''<Item'' r0 of
           None \<Rightarrow> None
         | Some r1 \<Rightarrow>
             if (case r1 of [] \<Rightarrow> True | c # _ \<Rightarrow> \<not> isword c) then
               (case dropWhile (\<lambda>c. c \<noteq> CHR ''>'') r1 of
                  [] \<Rightarrow> None
                | _ # r2 \<Rightarrow>
                    (case lazy_close r2 of
                       None \<Rightarrow> None
                     | Some (inner, r3) \<Rightarrow> Some (length s - length r3, indent, inner)))
             else None)"

lemma lit_length: "lit p s = Some r \<Longrightarrow> length s = length p + length r"
  by (induction p s rule: lit.induct) (auto split: if_splits)

lemma lazy_close_length: "lazy_close s = Some (inner, r) \<Longrightarrow> length r + 7 + length inner = length s"
proof (induction s arbitrary: inner r)
  case Nil
  then show ?case by simp
next
  case (Cons c cs)
  show ?case
  proof (cases "lit ''</Item>'' (c # cs)")
    case None
    with Cons.prems obtain i where "lazy_close cs = Some (i, r)" "inner = c # i"
      by (auto split: option.splits)
    with Cons.IH show ?thesis by fastforce
  next
    case (Some r')
    with Cons.prems have "inner = []" "r' = r" by auto
    with Some lit_length [of "''</Item>''" "c # cs" r] show ?thesis by simp
  qed
qed

lemma ITEM_RE_match_length:
  assumes "ITEM_RE_match s = Some (n, indent, inner)"
  shows "0 < n \<and> n \<le> length s"
proof -
  let ?blank = "\<lambda>c. c = CHR '' '' \<or> c = CHR 0x09"
  from assms obtain r1 where r1: "lit ''<Item'' (dropWhile ?blank s) = Some r1"
    unfolding ITEM_RE_match_def Let_def by (auto split: option.splits)
  from assms r1 obtain x r2 where r2: "dropWhile (\<lambda>c. c \<noteq> CHR ''>'') r1 = x # r2"
    unfolding ITEM_RE_match_def Let_def by (auto split: option.splits if_splits list.splits)
  from assms r1 r2 obtain r3 where r3: "lazy_close r2 = Some (inner, r3)"
    and n: "n = length s - length r3"
    unfolding ITEM_RE_match_def Let_def by (auto split: option.splits if_splits)
  have "length r1 \<le> length s"
    using lit_length [OF r1] length_dropWhile_le [of ?blank s] by simp
  moreover have "length r2 \<le> length r1"
    using length_dropWhile_le [of "\<lambda>c. c \<noteq> CHR ''>''" r1] r2 by simp
  moreover have "length r3 < length r2"
    using lazy_close_length [OF r3] by simp
  ultimately show ?thesis using n by simp
qed

text \<open>
  \<open>ITEM_RE.finditer(text)\<close>, from position \<open>pos\<close> on. In multi-line mode \<open>^\<close> holds at
  position 0 and after a line feed. A match is never empty, so the search goes on at its
  end; each result is \<open>(m.start(), m.end(), m.group(1), m.group(2))\<close>.
\<close>

function ITEM_RE_finditer :: "string \<Rightarrow> nat \<Rightarrow> (nat \<times> nat \<times> string \<times> string) list" where
  "ITEM_RE_finditer text pos =
     (if length text < pos then []
      else if pos = 0 \<or> text ! (pos - 1) = CHR 0x0A then
        (case ITEM_RE_match (drop pos text) of
           Some (n, indent, inner) \<Rightarrow>
             (pos, pos + n, indent, inner) # ITEM_RE_finditer text (pos + n)
         | None \<Rightarrow> ITEM_RE_finditer text (pos + 1))
      else ITEM_RE_finditer text (pos + 1))"
  by pat_completeness auto
termination
  apply (relation "measure (\<lambda>(text, pos). Suc (length text) - pos)")
     apply simp
    apply simp
   apply clarsimp
   apply (frule ITEM_RE_match_length)
   apply arith
  apply simp
  done

declare ITEM_RE_finditer.simps [simp del]


section \<open>The script\<close>

subsection \<open>\<open>build_items\<close>\<close>

definition item_text :: "string \<Rightarrow> string \<Rightarrow> nat \<Rightarrow> string" where
  \<open>item_text indent vtype val =
     indent @ ''<Item>\<newline>'' @
     indent @ ''  <identifier />\<newline>'' @
     indent @ ''  <modifier value="'' @ str_of_nat val @ ''" />\<newline>'' @
     indent @ ''  <audioApply value="1.000000" />\<newline>'' @
     indent @ ''  <weight value="0" />\<newline>'' @
     indent @ ''  <type>'' @ vtype @ ''</type>\<newline>'' @
     indent @ ''</Item>\<newline>''\<close>

definition build_items :: "string \<Rightarrow> string \<Rightarrow> string" where
  "build_items indent vtype = concat (map (item_text indent vtype) [25, 50, 75, 100])"

subsection \<open>\<open>scan_items\<close>\<close>

text \<open>A scanned block is the tuple \<open>(start, end, indent, vtype or None)\<close>.\<close>

type_synonym block = "nat \<times> nat \<times> string \<times> string option"

definition scan_items :: "string \<Rightarrow> block list" where
  "scan_items text =
     map (\<lambda>(s, e, indent, inner). (s, e, indent, map_option strip (TYPE_RE_search inner)))
         (ITEM_RE_finditer text 0)"

subsection \<open>The grouping loops of \<open>main\<close>\<close>

text \<open>A run is the tuple \<open>(group_start, group_end, group_indent, vt)\<close>.\<close>

type_synonym run = "nat \<times> nat \<times> string \<times> string"

definition targets :: "string set" where
  "targets = {''VMT_GEARBOX'', ''VMT_BRAKES'', ''VMT_ENGINE''}"

text \<open>\<open>re.fullmatch(r"\s*", between, re.S)\<close>.\<close>

definition fullmatch_ws :: "string \<Rightarrow> bool" where
  "fullmatch_ws between \<longleftrightarrow> (\<forall>c \<in> set between. isspace c)"

text \<open>The condition of the inner \<open>if\<close>: \<open>vtype2\<close> is neither \<open>None\<close> nor empty,
  \<open>vtype2.strip().upper() == vt\<close>, and \<open>between\<close> is white space only.\<close>

definition joins :: "string \<Rightarrow> string \<Rightarrow> nat \<Rightarrow> block \<Rightarrow> bool" where
  "joins text vt group_end b =
     (case b of (s2, e2, _, vtype2) \<Rightarrow>
        (case vtype2 of
           None \<Rightarrow> False
         | Some v2 \<Rightarrow> v2 \<noteq> [] \<and> upper (strip v2) = vt
                       \<and> fullmatch_ws (slice text group_end s2)))"

text \<open>The inner \<open>while j < len(items)\<close>; returns \<open>j\<close> and \<open>group_end\<close> at its exit.\<close>

function extend_run :: "string \<Rightarrow> block list \<Rightarrow> string \<Rightarrow> nat \<Rightarrow> nat \<Rightarrow> nat \<times> nat" where
  "extend_run text items vt j group_end =
     (if j < length items then
        (if joins text vt group_end (items ! j)
         then extend_run text items vt (j + 1) (fst (snd (items ! j)))
         else (j, group_end))
      else (j, group_end))"
  by pat_completeness auto
termination
  by (relation "measure (\<lambda>(text, items, vt, j, group_end). length items - j)") auto

declare extend_run.simps [simp del]

lemma extend_run_mono: "j \<le> fst (extend_run text items vt j group_end)"
proof (induction "text" items vt j group_end rule: extend_run.induct)
  case (1 t items vt j group_end)
  show ?case
  proof (cases "j < length items \<and> joins t vt group_end (items ! j)")
    case True
    then have "extend_run t items vt j group_end
                 = extend_run t items vt (j + 1) (fst (snd (items ! j)))"
      by (subst extend_run.simps) simp
    moreover have "j + 1 \<le> fst (extend_run t items vt (j + 1) (fst (snd (items ! j))))"
      using 1 True by simp
    ultimately show ?thesis by simp
  next
    case False
    then have "extend_run t items vt j group_end = (j, group_end)"
      by (subst extend_run.simps) auto
    then show ?thesis by simp
  qed
qed

text \<open>The first two \<open>if\<close>s of the outer loop: the block is skipped when its type is
  \<open>None\<close> or empty, does not start with \<open>VMT_\<close> once upper-cased, or, without \<open>--any\<close>,
  is not in \<open>targets\<close> once upper-cased.\<close>

definition skipped :: "bool \<Rightarrow> block \<Rightarrow> bool" where
  "skipped any b =
     (case b of (s, e, indent, vtype) \<Rightarrow>
        (case vtype of
           None \<Rightarrow> True
         | Some v \<Rightarrow>
             if v = [] \<or> \<not> startswith (upper v) ''VMT_'' then True
             else \<not> any \<and> upper v \<notin> targets))"

text \<open>The outer \<open>while i < len(items)\<close>; returns \<open>groups\<close> at its exit.\<close>

function group_loop :: "bool \<Rightarrow> string \<Rightarrow> block list \<Rightarrow> nat \<Rightarrow> run list \<Rightarrow> run list" where
  "group_loop any text items i groups =
     (if i < length items then
        (if skipped any (items ! i) then group_loop any text items (i + 1) groups
         else
           (case items ! i of (s, e, indent, vtype) \<Rightarrow>
              let vt = upper (the vtype);
                  (j, group_end) = extend_run text items vt (i + 1) e
              in group_loop any text items j (groups @ [(s, group_end, indent, vt)])))
      else groups)"
  by pat_completeness auto
termination
  apply (relation "measure (\<lambda>(any, text, items, i, groups). length items - i)")
    apply simp
   apply simp
  apply clarsimp
  subgoal premises prems for any t items i s e indent vtype vt j_ge j group_end
  proof -
    have "fst (extend_run t items (upper (the vtype)) (Suc i) e) = j"
      using prems(5) by (metis fst_conv)
    with extend_run_mono [of "Suc i" t items "upper (the vtype)" e] prems(1)
    show ?thesis by simp
  qed
  done

declare group_loop.simps [simp del]

subsection \<open>Applying the replacements\<close>

text \<open>The \<open>for s, e, indent, vtype in groups\<close> loop; returns \<open>new_parts\<close> and \<open>pos\<close>.\<close>

fun splice_loop :: "string \<Rightarrow> run list \<Rightarrow> string list \<Rightarrow> nat \<Rightarrow> string list \<times> nat" where
  "splice_loop text [] new_parts pos = (new_parts, pos)"
| "splice_loop text ((s, e, indent, vtype) # groups) new_parts pos =
     splice_loop text groups (new_parts @ [slice text pos s, build_items indent vtype]) e"

definition apply_replacements :: "string \<Rightarrow> run list \<Rightarrow> string" where
  "apply_replacements text groups =
     (case splice_loop text groups [] 0 of
        (new_parts, pos) \<Rightarrow> concat (new_parts @ [drop pos text]))"

subsection \<open>One file\<close>

text \<open>
  What the body of the \<open>for meta in ...\<close> loop computes from the text of one file and
  the flag \<open>--any\<close>: nothing when there is no item block or no run, else the new text and
  the number of runs.
\<close>

datatype outcome = No_Items | No_Matching | Replaced string nat

definition find_groups :: "bool \<Rightarrow> string \<Rightarrow> run list" where
  "find_groups any text = group_loop any text (scan_items text) 0 []"

definition normalize :: "bool \<Rightarrow> string \<Rightarrow> outcome" where
  "normalize any text =
     (if scan_items text = [] then No_Items
      else if find_groups any text = [] then No_Matching
      else Replaced (apply_replacements text (find_groups any text))
                    (length (find_groups any text)))"

text \<open>The content of the file after the script has run on it (not a dry run).\<close>

definition file_after :: "bool \<Rightarrow> string \<Rightarrow> string" where
  "file_after any text =
     (case normalize any text of Replaced new_text n \<Rightarrow> new_text | _ \<Rightarrow> text)"


subsection \<open>The effects of one iteration of the file loop\<close>

text \<open>
  The files under the root directory (path to decoded text), the lines printed so far
  and the counter \<open>updated\<close>. One iteration of \<open>for meta in root.rglob(args.name)\<close> reads
  the file, prints one line and, unless it is a dry run or nothing is to be replaced,
  copies the file to \<open>meta.bak\<close>, writes the new text and counts the file. A path that
  names no file is not produced by \<open>rglob\<close>; the iteration then leaves everything as it is.
\<close>

datatype message =
    No_Item_Blocks string
  | No_Matching_Items string
  | Would_Replace string nat
  | Updated string nat

record world =
  fs :: "string \<rightharpoonup> string"
  printed :: "message list"
  updated :: nat

definition process_file :: "bool \<Rightarrow> bool \<Rightarrow> world \<Rightarrow> string \<Rightarrow> world" where
  "process_file any dry_run w meta =
     (case fs w meta of
        None \<Rightarrow> w
      | Some text \<Rightarrow>
          (case normalize any text of
             No_Items \<Rightarrow> w\<lparr>printed := printed w @ [No_Item_Blocks meta]\<rparr>
           | No_Matching \<Rightarrow> w\<lparr>printed := printed w @ [No_Matching_Items meta]\<rparr>
           | Replaced new_text n \<Rightarrow>
               if dry_run then w\<lparr>printed := printed w @ [Would_Replace meta n]\<rparr>
               else w\<lparr>fs := (fs w)(meta @ ''.bak'' \<mapsto> text, meta \<mapsto> new_text),
                      printed := printed w @ [Updated meta n],
                      updated := updated w + 1\<rparr>))"

text \<open>The number of runs that a printed line reports as replaced, if it reports one.\<close>

fun replaced_runs :: "message \<Rightarrow> nat option" where
  "replaced_runs (Would_Replace meta n) = Some n"
| "replaced_runs (Updated meta n) = Some n"
| "replaced_runs _ = None"


section \<open>Notions used in the statements\<close>

text \<open>
  A list of spans \<open>(start, end, ...)\<close> is ordered within \<open>lo .. n\<close> when every span is
  non-empty, starts at or after the end of the span before it (the first at or after
  \<open>lo\<close>) and ends at or before \<open>n\<close>.
\<close>

fun ordered_spans :: "nat \<Rightarrow> nat \<Rightarrow> (nat \<times> nat \<times> 'a) list \<Rightarrow> bool" where
  "ordered_spans lo n [] = True"
| "ordered_spans lo n ((s, e, x) # rs) = (lo \<le> s \<and> s < e \<and> e \<le> n \<and> ordered_spans e n rs)"

text \<open>
  Position \<open>i\<close> of the text is outside every run of \<open>groups\<close>. The runs that end at or
  before \<open>i\<close> have removed \<open>removed groups i\<close> characters and put
  \<open>inserted groups i\<close> characters in their place, so that the character at \<open>i\<close> moves to
  \<open>new_index groups i\<close>.
\<close>

definition outside :: "run list \<Rightarrow> nat \<Rightarrow> bool" where
  "outside groups i \<longleftrightarrow> list_all (\<lambda>(s, e, indent, vtype). i < s \<or> e \<le> i) groups"

definition inserted :: "run list \<Rightarrow> nat \<Rightarrow> nat" where
  "inserted groups i =
     sum_list (map (\<lambda>(s, e, indent, vtype). length (build_items indent vtype))
                   (filter (\<lambda>(s, e, indent, vtype). e \<le> i) groups))"

definition removed :: "run list \<Rightarrow> nat \<Rightarrow> nat" where
  "removed groups i =
     sum_list (map (\<lambda>(s, e, indent, vtype). e - s)
                   (filter (\<lambda>(s, e, indent, vtype). e \<le> i) groups))"

definition new_index :: "run list \<Rightarrow> nat \<Rightarrow> nat" where
  "new_index groups i = i + inserted groups i - removed groups i"

text \<open>
  The inclusion policy in the words of the specification: a type qualifies when it is
  present, begins with \<open>VMT_\<close> in any case and, unless the any-type override is active,
  is one of the three target names once upper-cased.
\<close>

definition starts_with_ci :: "string \<Rightarrow> string \<Rightarrow> bool" where
  "starts_with_ci s p \<longleftrightarrow>
     length p \<le> length s \<and> map tolower (take (length p) s) = map tolower p"

definition qualifies :: "bool \<Rightarrow> string option \<Rightarrow> bool" where
  "qualifies any vtype =
     (case vtype of
        None \<Rightarrow> False
      | Some v \<Rightarrow> starts_with_ci v ''VMT_'' \<and> (any \<or> upper v \<in> targets))"

text \<open>A block is replaced when it lies within the span of a run.\<close>

definition replaced :: "run list \<Rightarrow> block \<Rightarrow> bool" where
  "replaced groups b \<longleftrightarrow>
     list_ex (\<lambda>(group_start, group_end, group_indent, vt).
                group_start \<le> fst b \<and> fst (snd b) \<le> group_end) groups"

text \<open>
  The grouping condition in the words of the specification: the candidate's type,
  trimmed and upper-cased, equals the run's type, and the text between the end of the
  run so far and the start of the candidate is white space only. \<open>run_members\<close> are the
  blocks a run takes from the blocks after its first one: the longest chain of
  candidates that each meet the condition; \<open>last_end\<close> is where the run then ends.
\<close>

definition same_type_ws :: "string \<Rightarrow> string \<Rightarrow> nat \<Rightarrow> block \<Rightarrow> bool" where
  "same_type_ws text vt group_end b =
     (case b of (s2, e2, indent2, vtype2) \<Rightarrow>
        (case vtype2 of None \<Rightarrow> False | Some v2 \<Rightarrow> upper (strip v2) = vt) \<and>
        list_all isspace (slice text group_end s2))"

fun run_members :: "string \<Rightarrow> string \<Rightarrow> nat \<Rightarrow> block list \<Rightarrow> block list" where
  "run_members text vt group_end [] = []"
| "run_members text vt group_end (b # bs) =
     (if same_type_ws text vt group_end b then b # run_members text vt (fst (snd b)) bs
      else [])"

fun last_end :: "nat \<Rightarrow> block list \<Rightarrow> nat" where
  "last_end group_end [] = group_end"
| "last_end group_end (b # bs) = last_end (fst (snd b)) bs"

text \<open>A character that \<open>str.upper()\<close> leaves alone and produces from its lower-case
  form only: an upper-case ASCII letter other than \<open>S\<close>, or the underscore.\<close>

definition plain_upper :: "char \<Rightarrow> bool" where
  "plain_upper d \<longleftrightarrow> (65 \<le> ord d \<and> ord d \<le> 90 \<and> ord d \<noteq> 83) \<or> ord d = 95"


text \<open>The canonical replacement element for the modifier value \<open>val\<close>, written out.\<close>

definition canonical_block :: "string \<Rightarrow> string \<Rightarrow> string \<Rightarrow> string" where
  \<open>canonical_block indent val vtype =
     indent @ ''<Item>\<newline>'' @
     indent @ ''  <identifier />\<newline>'' @
     indent @ ''  <modifier value="'' @ val @ ''" />\<newline>'' @
     indent @ ''  <audioApply value="1.000000" />\<newline>'' @
     indent @ ''  <weight value="0" />\<newline>'' @
     indent @ ''  <type>'' @ vtype @ ''</type>\<newline>'' @
     indent @ ''</Item>\<newline>''\<close>

subsection \<open>The loops as recursions over the remaining items\<close>

text \<open>
  The loops of \<open>main\<close> walk \<open>items\<close> and \<open>groups\<close> by index. The functions below do the
  same walk over what is left of the list; they are shown equal to the loops and the
  proofs go through them.
\<close>

fun extend_list :: "string \<Rightarrow> string \<Rightarrow> nat \<Rightarrow> block list \<Rightarrow> nat \<times> block list" where
  "extend_list text vt group_end [] = (group_end, [])"
| "extend_list text vt group_end (b # bs) =
     (if joins text vt group_end b then extend_list text vt (fst (snd b)) bs
      else (group_end, b # bs))"

lemma extend_list_length: "length (snd (extend_list text vt ge bs)) \<le> length bs"
  by (induction bs arbitrary: ge) (auto simp: le_SucI)

function group_list :: "bool \<Rightarrow> string \<Rightarrow> block list \<Rightarrow> run list" where
  "group_list any text [] = []"
| "group_list any text (b # bs) =
     (if skipped any b then group_list any text bs
      else (fst b, fst (extend_list text (upper (the (snd (snd (snd b))))) (fst (snd b)) bs),
            fst (snd (snd b)), upper (the (snd (snd (snd b)))))
           # group_list any text
               (snd (extend_list text (upper (the (snd (snd (snd b))))) (fst (snd b)) bs)))"
  by pat_completeness auto
termination
  apply (relation "measure (\<lambda>(any, text, bs). length bs)")
    apply simp
   apply simp
  apply (simp add: extend_list_length le_imp_less_Suc)
  done

declare group_list.simps [simp del]

fun splice_from :: "string \<Rightarrow> nat \<Rightarrow> run list \<Rightarrow> string" where
  "splice_from text pos [] = drop pos text"
| "splice_from text pos ((s, e, indent, vtype) # groups) =
     slice text pos s @ build_items indent vtype @ splice_from text e groups"

subsection \<open>Texts laid out like a rendering\<close>

text \<open>
  The part of a rendered block between \<open><Item>\<close> and \<open></Item>\<close>, the block without
  its final line feed, and a text made of such blocks for a list of modifier values:
  \<open>build_items indent vtype\<close> is \<open>canonical_text indent vtype\<close> of 25, 50, 75, 100.
\<close>

definition canonical_inner :: "string \<Rightarrow> string \<Rightarrow> string \<Rightarrow> string" where
  \<open>canonical_inner indent val vtype =
     ''\<newline>'' @
     indent @ ''  <identifier />\<newline>'' @
     indent @ ''  <modifier value="'' @ val @ ''" />\<newline>'' @
     indent @ ''  <audioApply value="1.000000" />\<newline>'' @
     indent @ ''  <weight value="0" />\<newline>'' @
     indent @ ''  <type>'' @ vtype @ ''</type>\<newline>'' @
     indent\<close>

definition canonical_item :: "string \<Rightarrow> string \<Rightarrow> string \<Rightarrow> string" where
  "canonical_item indent val vtype =
     indent @ ''<Item>'' @ canonical_inner indent val vtype @ ''</Item>''"

definition canonical_text :: "string \<Rightarrow> string \<Rightarrow> string list \<Rightarrow> string" where
  "canonical_text indent vtype vals = concat (map (\<lambda>val. canonical_block indent val vtype) vals)"

text \<open>
  The matches of \<open>ITEM_RE\<close> and the blocks of \<open>scan_items\<close> expected in such a text that
  starts at position \<open>p\<close>: one per value, each from the start of its line to the end of
  its closing tag.
\<close>

fun canonical_spans ::
  "nat \<Rightarrow> string \<Rightarrow> string \<Rightarrow> string list \<Rightarrow> (nat \<times> nat \<times> string \<times> string) list" where
  "canonical_spans p indent vtype [] = []"
| "canonical_spans p indent vtype (val # vals) =
     (p, p + length (canonical_item indent val vtype), indent, canonical_inner indent val vtype)
     # canonical_spans (p + length (canonical_item indent val vtype) + 1) indent vtype vals"

fun canonical_blocks :: "nat \<Rightarrow> string \<Rightarrow> string \<Rightarrow> string list \<Rightarrow> block list" where
  "canonical_blocks p indent vtype [] = []"
| "canonical_blocks p indent vtype (val # vals) =
     (p, p + length (canonical_item indent val vtype), indent, Some vtype)
     # canonical_blocks (p + length (canonical_item indent val vtype) + 1) indent vtype vals"


section \<open>Example files\<close>

text \<open>Two item blocks of different types with a comment line between them.\<close>

definition two_runs :: string where
  "two_runs = ''<Item><type>VMT_ENGINE</type></Item>\<newline><!-- c -->\<newline><Item><type>vmt_brakes</type></Item>\<newline>''"

text \<open>An item block that does not begin its line.\<close>

definition mid_line :: string where
  "mid_line = ''x<Item><type>VMT_ENGINE</type></Item>''"

text \<open>Two blocks of type \<open>VMT_ENGINE\<close>, a blank line, three more blocks of the same type.\<close>

definition scenario_B :: string where
  "scenario_B =
     ''<Item><type>VMT_ENGINE</type></Item>\<newline>'' @
     ''<Item><type>VMT_ENGINE</type></Item>\<newline>'' @
     ''\<newline>'' @
     ''<Item><type>VMT_ENGINE</type></Item>\<newline>'' @
     ''<Item><type>VMT_ENGINE</type></Item>\<newline>'' @
     ''<Item><type>VMT_ENGINE</type></Item>\<newline>''"

text \<open>The same with a comment line in place of the blank line.\<close>

definition scenario_C :: string where
  "scenario_C =
     ''<Item><type>VMT_ENGINE</type></Item>\<newline>'' @
     ''<Item><type>VMT_ENGINE</type></Item>\<newline>'' @
     ''<!-- c -->\<newline>'' @
     ''<Item><type>VMT_ENGINE</type></Item>\<newline>'' @
     ''<Item><type>VMT_ENGINE</type></Item>\<newline>'' @
     ''<Item><type>VMT_ENGINE</type></Item>\<newline>''"

text \<open>A single block of a type outside the three target names.\<close>

definition scenario_D :: string where
  "scenario_D = ''<Item><type>VMT_SUSPENSION</type></Item>\<newline>''"


section \<open>Characters\<close>


lemma ord_inj: "ord c = ord d \<longleftrightarrow> c = d"
  by (simp add: ord_def)

lemma ord_less_256: "ord c < 256"
  by (simp add: ord_def)

lemma char_of_sub_32:
  "32 \<le> ord c \<Longrightarrow> char_of (ord c - 32) = d \<longleftrightarrow> ord c = ord d + 32"
proof
  assume a: "32 \<le> ord c" "char_of (ord c - 32) = d"
  then have "of_char (char_of (ord c - 32) :: char) = (of_char d :: nat)" by simp
  then have "(ord c - 32) mod 256 = ord d" by (simp add: ord_def)
  moreover have "ord c - 32 < 256" using ord_less_256 [of c] by simp
  ultimately show "ord c = ord d + 32" using a(1) by simp
next
  assume "32 \<le> ord c" "ord c = ord d + 32"
  then show "char_of (ord c - 32) = d" by (simp add: ord_def)
qed

lemma char_of_add_32:
  "ord c \<le> 223 \<Longrightarrow> char_of (ord c + 32) = d \<longleftrightarrow> ord d = ord c + 32"
proof
  assume a: "ord c \<le> 223" "char_of (ord c + 32) = d"
  then have "of_char (char_of (ord c + 32) :: char) = (of_char d :: nat)" by simp
  then have "(ord c + 32) mod 256 = ord d" by (simp add: ord_def)
  with a(1) show "ord d = ord c + 32" by simp
next
  assume "ord c \<le> 223" "ord d = ord c + 32"
  have "char_of (of_char d :: nat) = d" by simp
  with \<open>ord d = ord c + 32\<close> show "char_of (ord c + 32) = d" by (simp add: ord_def)
qed


lemma ord_char_of: "n < 256 \<Longrightarrow> ord (char_of n) = n"
  by (simp add: ord_def)

lemma ord_tolower:
  "ord (tolower c) = (if 65 \<le> ord c \<and> ord c \<le> 90 then ord c + 32 else ord c)"
  by (simp add: tolower_def ord_char_of)

lemma toupper_full_ord:
  "toupper_full c =
     (if ord c = 223 then ''SS''
      else [char_of (if (97 \<le> ord c \<and> ord c \<le> 122) \<or>
                        (224 \<le> ord c \<and> ord c \<le> 254 \<and> ord c \<noteq> 247)
                     then ord c - 32 else ord c)])"
  by (simp add: toupper_full_def ord_def)

lemma toupper_full_plain:
  assumes "plain_upper d"
  shows "toupper_full c = d # xs \<longleftrightarrow> tolower c = tolower d \<and> xs = []"
proof (cases "ord c = 223")
  case True
  have "ord (CHR ''S'') = 83" by (simp add: ord_def)
  with assms have "d \<noteq> CHR ''S''" by (auto simp: plain_upper_def)
  with True have "toupper_full c \<noteq> d # xs" by (simp add: toupper_full_ord)
  moreover have "ord (tolower c) \<noteq> ord (tolower d)"
    using True assms by (auto simp: ord_tolower plain_upper_def)
  then have "tolower c \<noteq> tolower d" by auto
  ultimately show ?thesis by simp
next
  case False
  define n where "n = (if (97 \<le> ord c \<and> ord c \<le> 122) \<or>
                        (224 \<le> ord c \<and> ord c \<le> 254 \<and> ord c \<noteq> 247)
                     then ord c - 32 else ord c)"
  have n: "n < 256" using ord_less_256 [of c] unfolding n_def by arith
  from False have tu: "toupper_full c = [char_of n]" by (simp add: toupper_full_ord n_def)
  have "char_of n = d \<longleftrightarrow> ord (char_of n :: char) = ord d" by (simp only: ord_inj)
  also have "\<dots> \<longleftrightarrow> n = ord d" using n by (simp add: ord_char_of)
  also have "\<dots> \<longleftrightarrow> ord (tolower c) = ord (tolower d)"
    using assms False ord_less_256 [of c] unfolding n_def ord_tolower plain_upper_def by arith
  also have "\<dots> \<longleftrightarrow> tolower c = tolower d" by (simp only: ord_inj)
  finally have "char_of n = d \<longleftrightarrow> tolower c = tolower d" .
  with tu show ?thesis by auto
qed


lemma toupper_full_nonempty: "toupper_full c \<noteq> []"
  by (simp add: toupper_full_def)

lemma startswith_upper_lit:
  "\<forall>d \<in> set p. plain_upper d \<Longrightarrow> startswith (upper v) p \<longleftrightarrow> lit p v \<noteq> None"
proof (induction p arbitrary: v)
  case Nil
  show ?case by (simp add: startswith_def)
next
  case (Cons d p)
  show ?case
  proof (cases v)
    case Nil
    then show ?thesis by (simp add: startswith_def upper_def)
  next
    case v: (Cons c cs)
    obtain x xs where tu: "toupper_full c = x # xs"
      using toupper_full_nonempty [of c] by (cases "toupper_full c") auto
    from Cons.prems have d: "plain_upper d" and p: "\<forall>d \<in> set p. plain_upper d" by auto
    have "startswith (upper v) (d # p) \<longleftrightarrow> x = d \<and> take (length p) (xs @ upper cs) = p"
      by (simp add: startswith_def upper_def v tu)
    also have "\<dots> \<longleftrightarrow> tolower c = tolower d \<and> startswith (upper cs) p"
      using toupper_full_plain [OF d, of c xs] toupper_full_plain [OF d, of c "[]"] tu
      by (auto simp: startswith_def)
    also have "\<dots> \<longleftrightarrow> lit (d # p) v \<noteq> None"
      using Cons.IH [OF p, of cs] v by simp
    finally show ?thesis .
  qed
qed

lemma startswith_upper_VMT: "startswith (upper v) ''VMT_'' \<longleftrightarrow> lit ''VMT_'' v \<noteq> None"
  by (rule startswith_upper_lit) (simp add: plain_upper_def ord_def)


section \<open>Properties of the two patterns\<close>


lemma lit_split:
  "lit p s = Some r \<Longrightarrow> \<exists>m. s = m @ r \<and> length m = length p \<and> map tolower m = map tolower p"
proof (induction p s rule: lit.induct)
  case (1 s)
  then show ?case by simp
next
  case (2 p ps)
  then show ?case by simp
next
  case (3 p ps c cs)
  then have eq: "tolower c = tolower p" and "lit ps cs = Some r" by (auto split: if_splits)
  with 3 obtain m where "cs = m @ r" "length m = length ps" "map tolower m = map tolower ps"
    by auto
  with eq show ?case by (intro exI [of _ "c # m"]) simp
qed

lemma lit_append:
  "length m = length p \<Longrightarrow> map tolower m = map tolower p \<Longrightarrow> lit p (m @ r) = Some r"
proof (induction p arbitrary: m)
  case Nil
  then show ?case by simp
next
  case (Cons a p)
  then obtain c cs where "m = c # cs" by (cases m) auto
  with Cons show ?case by simp
qed

lemma lazy_close_split:
  "lazy_close s = Some (inner, r) \<Longrightarrow>
   \<exists>cl. s = inner @ cl @ r \<and> map tolower cl = map tolower ''</Item>''"
proof (induction s arbitrary: inner)
  case Nil
  then show ?case by simp
next
  case (Cons c cs)
  show ?case
  proof (cases "lit ''</Item>'' (c # cs)")
    case None
    with Cons.prems obtain i where i: "lazy_close cs = Some (i, r)" "inner = c # i"
      by (auto split: option.splits)
    from Cons.IH [OF i(1)] i(2) show ?thesis by auto
  next
    case (Some r')
    with Cons.prems have "inner = []" "r' = r" by auto
    with Some lit_split [of "''</Item>''" "c # cs" r] show ?thesis by auto
  qed
qed

lemma ITEM_RE_match_shape:
  assumes "ITEM_RE_match s = Some (n, indent, inner)"
  shows "\<exists>op attrs cl rest.
           s = indent @ op @ attrs @ ''>'' @ inner @ cl @ rest \<and>
           n = length (indent @ op @ attrs @ ''>'' @ inner @ cl) \<and>
           indent = takeWhile (\<lambda>c. c = CHR '' '' \<or> c = CHR 0x09) s \<and>
           map tolower op = map tolower ''<Item'' \<and>
           CHR ''>'' \<notin> set attrs \<and>
           (case attrs of [] \<Rightarrow> True | c # _ \<Rightarrow> \<not> isword c) \<and>
           map tolower cl = map tolower ''</Item>''"
proof -
  let ?blank = "\<lambda>c. c = CHR '' '' \<or> c = CHR 0x09"
  have ind: "indent = takeWhile ?blank s"
    using assms unfolding ITEM_RE_match_def Let_def
    by (auto split: option.splits if_splits list.splits)
  from assms obtain r1 where r1: "lit ''<Item'' (dropWhile ?blank s) = Some r1"
    and wb: "(case r1 of [] \<Rightarrow> True | c # _ \<Rightarrow> \<not> isword c)"
    unfolding ITEM_RE_match_def Let_def by (auto split: option.splits if_splits)
  from assms r1 obtain x r2 where r2: "dropWhile (\<lambda>c. c \<noteq> CHR ''>'') r1 = x # r2"
    unfolding ITEM_RE_match_def Let_def by (auto split: option.splits if_splits list.splits)
  from assms r1 r2 obtain r3 where r3: "lazy_close r2 = Some (inner, r3)"
    and n: "n = length s - length r3"
    unfolding ITEM_RE_match_def Let_def by (auto split: option.splits if_splits)
  from lit_split [OF r1] obtain op where op: "dropWhile ?blank s = op @ r1"
    "map tolower op = map tolower ''<Item''" by auto
  define attrs where "attrs = takeWhile (\<lambda>c. c \<noteq> CHR ''>'') r1"
  have x: "x = CHR ''>''"
    using r2 hd_dropWhile [of "\<lambda>c. c \<noteq> CHR ''>''" r1] by auto
  have r1_eq: "r1 = attrs @ ''>'' @ r2"
    using takeWhile_dropWhile_id [of "\<lambda>c. c \<noteq> CHR ''>''" r1] r2 x by (simp add: attrs_def)
  have noclose: "CHR ''>'' \<notin> set attrs"
    unfolding attrs_def by (auto dest: set_takeWhileD)
  have wb': "(case attrs of [] \<Rightarrow> True | c # _ \<Rightarrow> \<not> isword c)"
    using wb r1_eq by (cases attrs) auto
  from lazy_close_split [OF r3] obtain cl where cl: "r2 = inner @ cl @ r3"
    "map tolower cl = map tolower ''</Item>''" by auto
  have s: "s = indent @ op @ attrs @ ''>'' @ inner @ cl @ r3"
    using takeWhile_dropWhile_id [of ?blank s] ind op(1) r1_eq cl(1) by simp
  have "n = length (indent @ op @ attrs @ ''>'' @ inner @ cl)"
    using n by (subst (asm) s) simp
  with s ind op(2) noclose wb' cl(2) show ?thesis by blast
qed


lemma finditer_Nil: "length text < pos \<Longrightarrow> ITEM_RE_finditer text pos = []"
  by (subst ITEM_RE_finditer.simps) simp

lemma finditer_match:
  "\<lbrakk>pos \<le> length text; pos = 0 \<or> text ! (pos - 1) = CHR 0x0A;
    ITEM_RE_match (drop pos text) = Some (n, indent, inner)\<rbrakk> \<Longrightarrow>
   ITEM_RE_finditer text pos = (pos, pos + n, indent, inner) # ITEM_RE_finditer text (pos + n)"
  by (subst ITEM_RE_finditer.simps) auto

lemma finditer_skip:
  "\<lbrakk>pos \<le> length text;
    \<not> (pos = 0 \<or> text ! (pos - 1) = CHR 0x0A) \<or> ITEM_RE_match (drop pos text) = None\<rbrakk> \<Longrightarrow>
   ITEM_RE_finditer text pos = ITEM_RE_finditer text (pos + 1)"
  by (subst ITEM_RE_finditer.simps) auto

lemma finditer_sound:
  "(s, e, indent, inner) \<in> set (ITEM_RE_finditer text pos) \<Longrightarrow>
   pos \<le> s \<and> (s = 0 \<or> text ! (s - 1) = CHR 0x0A) \<and>
   ITEM_RE_match (drop s text) = Some (e - s, indent, inner) \<and> s < e"
proof (induction "text" pos rule: ITEM_RE_finditer.induct)
  case (1 t pos)
  show ?case
  proof (cases "length t < pos")
    case True
    with 1(4) show ?thesis by (simp add: finditer_Nil)
  next
    case le: False
    show ?thesis
    proof (cases "(pos = 0 \<or> t ! (pos - 1) = CHR 0x0A) \<and> ITEM_RE_match (drop pos t) \<noteq> None")
      case True
      then obtain n i x where m: "ITEM_RE_match (drop pos t) = Some (n, i, x)" by auto
      from ITEM_RE_match_length [OF m] have n: "0 < n" by simp
      from le True m have eq: "ITEM_RE_finditer t pos = (pos, pos + n, i, x) # ITEM_RE_finditer t (pos + n)"
        by (intro finditer_match) auto
      show ?thesis
      proof (cases "(s, e, indent, inner) = (pos, pos + n, i, x)")
        case True
        with m n \<open>(pos = 0 \<or> t ! (pos - 1) = CHR 0x0A) \<and> _\<close> show ?thesis by auto
      next
        case False
        with 1(4) eq have "(s, e, indent, inner) \<in> set (ITEM_RE_finditer t (pos + n))" by auto
        from 1(2) [OF le _ m refl refl this] True show ?thesis by auto
      qed
    next
      case False
      with le have eq: "ITEM_RE_finditer t pos = ITEM_RE_finditer t (pos + 1)"
        by (intro finditer_skip) auto
      with 1(4) have mem: "(s, e, indent, inner) \<in> set (ITEM_RE_finditer t (pos + 1))" by simp
      show ?thesis
      proof (cases "pos = 0 \<or> t ! (pos - 1) = CHR 0x0A")
        case True
        with False have "ITEM_RE_match (drop pos t) = None" by blast
        from 1(1) [OF le True this mem] show ?thesis by auto
      next
        case False
        from 1(3) [OF le False mem] show ?thesis by auto
      qed
    qed
  qed
qed






section \<open>The example files, evaluated\<close>

lemma two_runs_length: "length two_runs = 85"
  by (simp add: two_runs_def)

lemma two_runs_groups:
  "find_groups False two_runs = [(0, 36, [], ''VMT_ENGINE''), (48, 84, [], ''VMT_BRAKES'')]"
  unfolding two_runs_def by code_simp

lemma two_runs_items:
  "scan_items two_runs = [(0, 36, [], Some ''VMT_ENGINE''), (48, 84, [], Some ''vmt_brakes'')]"
  unfolding two_runs_def by code_simp


lemma tolower_close_tag: "map tolower ''</Item>'' = ''</item>''"
  by code_simp

lemma scenario_B_items:
  "scan_items scenario_B =
     [(0, 36, [], Some ''VMT_ENGINE''), (37, 73, [], Some ''VMT_ENGINE''),
      (75, 111, [], Some ''VMT_ENGINE''), (112, 148, [], Some ''VMT_ENGINE''),
      (149, 185, [], Some ''VMT_ENGINE'')]"
  unfolding scenario_B_def by code_simp

lemma scenario_C_items:
  "scan_items scenario_C =
     [(0, 36, [], Some ''VMT_ENGINE''), (37, 73, [], Some ''VMT_ENGINE''),
      (85, 121, [], Some ''VMT_ENGINE''), (122, 158, [], Some ''VMT_ENGINE''),
      (159, 195, [], Some ''VMT_ENGINE'')]"
  unfolding scenario_C_def by code_simp

lemma scenario_B_members:
  "run_members scenario_B ''VMT_ENGINE'' 36
     [(37, 73, [], Some ''VMT_ENGINE''), (75, 111, [], Some ''VMT_ENGINE''),
      (112, 148, [], Some ''VMT_ENGINE''), (149, 185, [], Some ''VMT_ENGINE'')]
   = [(37, 73, [], Some ''VMT_ENGINE''), (75, 111, [], Some ''VMT_ENGINE''),
      (112, 148, [], Some ''VMT_ENGINE''), (149, 185, [], Some ''VMT_ENGINE'')]"
  unfolding scenario_B_def by code_simp

lemma scenario_C_members:
  "run_members scenario_C ''VMT_ENGINE'' 36
     [(37, 73, [], Some ''VMT_ENGINE''), (85, 121, [], Some ''VMT_ENGINE''),
      (122, 158, [], Some ''VMT_ENGINE''), (159, 195, [], Some ''VMT_ENGINE'')]
   = [(37, 73, [], Some ''VMT_ENGINE'')]"
  unfolding scenario_C_def by code_simp

lemma scenario_C_gap:
  "slice scenario_C 73 85 = ''\<newline><!-- c -->\<newline>'' \<and> slice scenario_B 73 75 = ''\<newline>\<newline>''"
  unfolding scenario_C_def scenario_B_def by (simp add: slice_def)

lemma upper_VMT_ENGINE: "upper ''VMT_ENGINE'' = ''VMT_ENGINE''"
  by code_simp

lemma VMT_ENGINE_not_skipped: "\<not> skipped False (s, e, indent, Some ''VMT_ENGINE'')"
  unfolding skipped_def split_conv option.case upper_VMT_ENGINE by code_simp

lemma scenario_D_items: "scan_items scenario_D = [(0, 40, [], Some ''VMT_SUSPENSION'')]"
  unfolding scenario_D_def by code_simp

lemma vmt_brakes_qualifies: "qualifies False (Some ''vmt_brakes'')"
  by code_simp

lemma VMT_ENGINE_qualifies: "qualifies False (Some ''VMT_ENGINE'')"
  by code_simp

lemma VMT_SUSPENSION_not_qualifies: "\<not> qualifies False (Some ''VMT_SUSPENSION'')"
  by code_simp


section \<open>Properties of the scanner, the grouping loops and the splicing\<close>

lemma ordered_spans_weaken: "ordered_spans lo n rs \<Longrightarrow> lo' \<le> lo \<Longrightarrow> ordered_spans lo' n rs"
  by (cases rs) auto

lemma ordered_spans_map:
  "ordered_spans lo n (map (\<lambda>(s, e, x). (s, e, f x)) rs) = ordered_spans lo n rs"
  by (induction rs arbitrary: lo) auto

lemma ordered_spans_nth:
  "ordered_spans lo n rs \<Longrightarrow> i < j \<Longrightarrow> j < length rs \<Longrightarrow>
   fst (snd (rs ! i)) \<le> fst (rs ! j)"
proof (induction rs arbitrary: lo i j)
  case Nil
  then show ?case by simp
next
  case (Cons r rs)
  obtain s e x where r: "r = (s, e, x)" by (cases r) auto
  from Cons.prems obtain j' where j: "j = Suc j'" by (cases j) auto
  show ?case
  proof (cases i)
    case 0
    have "\<And>lo k. ordered_spans lo n rs \<Longrightarrow> k < length rs \<Longrightarrow> lo \<le> fst (rs ! k)"
    proof -
      fix lo k show "ordered_spans lo n rs \<Longrightarrow> k < length rs \<Longrightarrow> lo \<le> fst (rs ! k)"
      proof (induction rs arbitrary: lo k)
        case Nil then show ?case by simp
      next
        case (Cons a as)
        obtain s' e' x' where a: "a = (s', e', x')" by (cases a) auto
        show ?case
        proof (cases k)
          case 0 with Cons.prems a show ?thesis by simp
        next
          case (Suc k')
          with Cons.prems a Cons.IH [of e' k'] show ?thesis by simp
        qed
      qed
    qed
    from this [of e j'] Cons.prems r j 0 show ?thesis by simp
  next
    case (Suc i')
    with Cons.prems r j Cons.IH [of e i' j'] show ?thesis by simp
  qed
qed

lemma finditer_ordered:
  "pos \<le> length text \<Longrightarrow> ordered_spans pos (length text) (ITEM_RE_finditer text pos)"
proof (induction "text" pos rule: ITEM_RE_finditer.induct)
  case (1 t pos)
  show ?case
  proof (cases "pos = 0 \<or> t ! (pos - 1) = CHR 0x0A")
    case bol: True
    show ?thesis
    proof (cases "ITEM_RE_match (drop pos t)")
      case None
      with bol 1 show ?thesis
        apply (subst ITEM_RE_finditer.simps)
        apply (cases "pos = length t")
         apply (simp add: ITEM_RE_finditer.simps [of t "Suc (length t)"])
        apply (auto intro: ordered_spans_weaken)
        done
    next
      case (Some m)
      obtain n indent inner where m: "m = (n, indent, inner)" by (cases m) auto
      from Some m ITEM_RE_match_length [of "drop pos t" n indent inner]
      have n: "0 < n" "pos + n \<le> length t" using 1(4) by auto
      with bol 1 Some m show ?thesis
        by (subst ITEM_RE_finditer.simps) auto
    qed
  next
    case False
    with 1 show ?thesis
      apply (subst ITEM_RE_finditer.simps)
      apply (cases "pos = length t")
       apply (simp add: ITEM_RE_finditer.simps [of t "Suc (length t)"])
      apply (auto intro: ordered_spans_weaken)
      done
  qed
qed

lemma scan_items_ordered: "ordered_spans 0 (length text) (scan_items text)"
proof -
  have "scan_items text = map (\<lambda>(s, e, x). (s, e, (\<lambda>(indent, inner). (indent, map_option strip (TYPE_RE_search inner))) x)) (ITEM_RE_finditer text 0)"
    by (simp add: scan_items_def split_def)
  then show ?thesis
    using finditer_ordered [of 0 "text"] by (simp only: ordered_spans_map) 
qed

lemma extend_run_list:
  "j \<le> length items \<Longrightarrow>
   extend_run text items vt j ge =
     (length items - length (snd (extend_list text vt ge (drop j items))),
      fst (extend_list text vt ge (drop j items)))"
proof (induction "text" items vt j ge rule: extend_run.induct)
  case (1 t items vt j ge)
  show ?case
  proof (cases "j < length items")
    case False
    with 1(2) have "j = length items" by simp
    then show ?thesis by (subst extend_run.simps) simp
  next
    case lt: True
    then have d: "drop j items = items ! j # drop (Suc j) items"
      by (simp add: Cons_nth_drop_Suc)
    show ?thesis
    proof (cases "joins t vt ge (items ! j)")
      case True
      with lt 1(1) have "extend_run t items vt (j + 1) (fst (snd (items ! j))) =
        (length items - length (snd (extend_list t vt (fst (snd (items ! j))) (drop (j + 1) items))),
         fst (extend_list t vt (fst (snd (items ! j))) (drop (j + 1) items)))"
        by simp
      with lt True d show ?thesis by (subst extend_run.simps) simp
    next
      case False
      with lt d show ?thesis by (subst extend_run.simps) simp
    qed
  qed
qed

lemma extend_list_drop:
  "drop (length bs - length (snd (extend_list text vt ge bs))) bs
     = snd (extend_list text vt ge bs)"
proof (induction bs arbitrary: ge)
  case Nil
  show ?case by simp
next
  case (Cons b bs)
  show ?case
  proof (cases "joins text vt ge b")
    case True
    have "length (snd (extend_list text vt (fst (snd b)) bs)) \<le> length bs"
      by (rule extend_list_length)
    then have "length (b # bs) - length (snd (extend_list text vt (fst (snd b)) bs))
                 = Suc (length bs - length (snd (extend_list text vt (fst (snd b)) bs)))"
      by simp
    with True Cons.IH [of "fst (snd b)"] show ?thesis by simp
  next
    case False
    then show ?thesis by simp
  qed
qed

lemma group_loop_list:
  "i \<le> length items \<Longrightarrow>
   group_loop any text items i groups = groups @ group_list any text (drop i items)"
proof (induction any "text" items i groups rule: group_loop.induct)
  case (1 any t items i groups)
  show ?case
  proof (cases "i < length items")
    case False
    with 1(3) have "i = length items" by simp
    then show ?thesis
      by (subst group_loop.simps) (simp add: group_list.simps)
  next
    case lt: True
    then have d: "drop i items = items ! i # drop (Suc i) items"
      by (simp add: Cons_nth_drop_Suc)
    show ?thesis
    proof (cases "skipped any (items ! i)")
      case True
      with lt 1(1) have "group_loop any t items (i + 1) groups
                           = groups @ group_list any t (drop (i + 1) items)"
        by simp
      with lt True d show ?thesis
        by (subst group_loop.simps) (simp add: group_list.simps)
    next
      case False
      obtain s e indent vtype where b: "items ! i = (s, e, indent, vtype)"
        by (cases "items ! i") auto
      define vt where "vt = upper (the vtype)"
      define r where "r = extend_list t vt e (drop (Suc i) items)"
      define j where "j = length items - length (snd r)"
      have run: "extend_run t items vt (i + 1) e = (j, fst r)"
        using lt extend_run_list [of "i + 1" items t vt e] by (simp add: j_def r_def)
      have len: "length (snd r) \<le> length items - Suc i"
        using extend_list_length [of t vt e "drop (Suc i) items"] by (simp add: r_def)
      have j_le: "j \<le> length items" by (simp add: j_def)
      have "j = Suc i + (length (drop (Suc i) items) - length (snd r))"
        using len lt by (simp add: j_def)
      then have "drop j items
                   = drop (length (drop (Suc i) items) - length (snd r)) (drop (Suc i) items)"
        by (simp add: add.commute)
      then have dj: "drop j items = snd r"
        unfolding r_def by (simp only: extend_list_drop)
      have "group_loop any t items j (groups @ [(s, fst r, indent, vt)])
              = (groups @ [(s, fst r, indent, vt)]) @ group_list any t (drop j items)"
        by (rule 1(2) [OF lt False b [symmetric] refl refl vt_def run [symmetric] refl j_le])
      moreover have "group_loop any t items i groups
                       = group_loop any t items j (groups @ [(s, fst r, indent, vt)])"
        using lt False b run by (subst group_loop.simps) (simp add: vt_def)
      moreover have "group_list any t (drop i items)
                       = (s, fst r, indent, vt) # group_list any t (snd r)"
        using False b d by (simp add: group_list.simps vt_def r_def)
      ultimately show ?thesis using dj by simp
    qed
  qed
qed

lemma find_groups_list: "find_groups any text = group_list any text (scan_items text)"
  by (simp add: find_groups_def group_loop_list)

lemma extend_list_ordered:
  "ordered_spans e n bs \<Longrightarrow> e \<le> n \<Longrightarrow>
   e \<le> fst (extend_list text vt e bs) \<and> fst (extend_list text vt e bs) \<le> n \<and>
   ordered_spans (fst (extend_list text vt e bs)) n (snd (extend_list text vt e bs))"
proof (induction bs arbitrary: e)
  case Nil
  then show ?case by simp
next
  case (Cons b bs)
  obtain s2 e2 x where b: "b = (s2, e2, x)" by (cases b) auto
  show ?case
  proof (cases "joins text vt e b")
    case True
    from Cons.prems b have "ordered_spans e2 n bs" "e2 \<le> n" "e \<le> e2" by auto
    with Cons.IH [of e2] True b show ?thesis by auto
  next
    case False
    with Cons.prems show ?thesis by simp
  qed
qed

lemma group_list_ordered:
  "ordered_spans lo n bs \<Longrightarrow> ordered_spans lo n (group_list any text bs)"
proof (induction any "text" bs arbitrary: lo rule: group_list.induct)
  case (1 any t)
  show ?case by (simp add: group_list.simps)
next
  case (2 any t b bs)
  obtain s e indent vtype where b: "b = (s, e, indent, vtype)" by (cases b) auto
  from "2.prems" b have o: "lo \<le> s" "s < e" "e \<le> n" "ordered_spans e n bs" by auto
  show ?case
  proof (cases "skipped any b")
    case True
    from o have "ordered_spans lo n bs" by (auto intro: ordered_spans_weaken)
    with "2.IH"(1) [OF True] True show ?thesis by (simp add: group_list.simps)
  next
    case False
    let ?r = "extend_list t (upper (the vtype)) e bs"
    from extend_list_ordered [OF o(4) o(3), of t "upper (the vtype)"]
    have r: "e \<le> fst ?r" "fst ?r \<le> n" "ordered_spans (fst ?r) n (snd ?r)" by auto
    from "2.IH"(2) [OF False, of "fst ?r"] r(3) b
    have "ordered_spans (fst ?r) n (group_list any t (snd ?r))" by simp
    with False b o r show ?thesis by (simp add: group_list.simps)
  qed
qed

lemma find_groups_ordered: "ordered_spans 0 (length text) (find_groups any text)"
  unfolding find_groups_list by (rule group_list_ordered [OF scan_items_ordered])

lemma splice_loop_concat:
  "concat (fst (splice_loop text groups new_parts pos)) @ drop (snd (splice_loop text groups new_parts pos)) text
     = concat new_parts @ splice_from text pos groups"
  by (induction "text" groups new_parts pos rule: splice_loop.induct) simp_all

lemma apply_replacements_splice: "apply_replacements text groups = splice_from text 0 groups"
  using splice_loop_concat [of "text" groups "[]" 0]
  by (simp add: apply_replacements_def split_def)

lemma removed_le:
  "ordered_spans lo n groups \<Longrightarrow> lo \<le> i \<Longrightarrow> removed groups i \<le> i - lo"
proof (induction groups arbitrary: lo)
  case Nil
  show ?case by (simp add: removed_def)
next
  case (Cons r groups)
  obtain s e indent vtype where r: "r = (s, e, indent, vtype)" by (cases r) auto
  from Cons.prems r have o: "lo \<le> s" "s < e" "ordered_spans e n groups" by auto
  show ?case
  proof (cases "e \<le> i")
    case True
    from Cons.IH [OF o(3) True] have "removed groups i \<le> i - e" .
    with True o r show ?thesis by (simp add: removed_def)
  next
    case False
    have "filter (\<lambda>(s, e, indent, vtype). e \<le> i) groups = []"
      using o(3) False
    proof (induction groups arbitrary: e)
      case Nil show ?case by simp
    next
      case (Cons a as)
      obtain s' e' x where a: "a = (s', e', x)" by (cases a) auto
      with Cons.prems have "ordered_spans e' n as" "\<not> e' \<le> i" by auto
      with Cons.IH [of e'] a show ?case by (simp add: split_def)
    qed
    with False r show ?thesis by (simp add: removed_def)
  qed
qed

lemma before_first:
  "ordered_spans lo n groups \<Longrightarrow> i < lo \<Longrightarrow>
   filter (\<lambda>(s, e, indent, vtype). e \<le> i) groups = []"
proof (induction groups arbitrary: lo)
  case Nil show ?case by simp
next
  case (Cons a as)
  obtain s' e' x where a: "a = (s', e', x)" by (cases a) auto
  with Cons.prems have "ordered_spans e' n as" "i < e'" by auto
  with Cons.IH [of e'] a show ?case by (simp add: split_def)
qed

lemma splice_from_nth:
  "ordered_spans pos (length text) groups \<Longrightarrow> pos \<le> i \<Longrightarrow> i < length text \<Longrightarrow>
   outside groups i \<Longrightarrow>
   new_index groups i - pos < length (splice_from text pos groups) \<and>
   splice_from text pos groups ! (new_index groups i - pos) = text ! i"
proof (induction groups arbitrary: pos)
  case Nil
  then show ?case by (simp add: new_index_def inserted_def removed_def)
next
  case (Cons r groups)
  obtain s e indent vtype where r: "r = (s, e, indent, vtype)" by (cases r) auto
  from Cons.prems r have o: "pos \<le> s" "s < e" "e \<le> length text"
    "ordered_spans e (length text) groups" by auto
  from Cons.prems r have out: "i < s \<or> e \<le> i" "outside groups i" by (auto simp: outside_def)
  have len: "length (slice text pos s) = s - pos" using o by (simp add: slice_def)
  show ?case
  proof (cases "i < s")
    case True
    then have "i < e" using o by simp
    then have "filter (\<lambda>(s, e, indent, vtype). e \<le> i) groups = []"
      using before_first [OF o(4)] by simp
    with True o have ni: "new_index (r # groups) i = i"
      by (simp add: new_index_def inserted_def removed_def r)
    have "slice text pos s ! (i - pos) = text ! i"
      using True Cons.prems(2) o by (simp add: slice_def)
    moreover have "i - pos < s - pos" using True Cons.prems(2) by arith
    ultimately show ?thesis using len ni r
      by (simp add: nth_append)
  next
    case False
    with out have ei: "e \<le> i" by simp
    from Cons.IH [OF o(4) ei Cons.prems(3) out(2)]
    have ih: "new_index groups i - e < length (splice_from text e groups)"
      "splice_from text e groups ! (new_index groups i - e) = text ! i" by auto
    have rem: "removed groups i \<le> i - e" by (rule removed_le [OF o(4) ei])
    let ?L = "length (build_items indent vtype)"
    have "new_index (r # groups) i = i + (?L + inserted groups i) - ((e - s) + removed groups i)"
      using ei by (simp add: new_index_def inserted_def removed_def r)
    with rem ei o have ni: "new_index (r # groups) i - pos
                  = (s - pos) + ?L + (new_index groups i - e)"
      by (simp add: new_index_def)
    let ?pre = "slice text pos s @ build_items indent vtype"
    have sp: "splice_from text pos (r # groups) = ?pre @ splice_from text e groups"
      by (simp add: r)
    have lp: "length ?pre = (s - pos) + ?L" using len by simp
    have "(?pre @ splice_from text e groups) ! (length ?pre + (new_index groups i - e))
            = splice_from text e groups ! (new_index groups i - e)"
      by (rule nth_append_length_plus)
    with ih lp show ?thesis unfolding ni sp by simp
  qed
qed



lemma extend_list_rest_subset: "set (snd (extend_list text vt ge bs)) \<subseteq> set bs"
  using extend_list_drop [of bs "text" vt ge] set_drop_subset by metis

lemma extend_list_end:
  "fst (extend_list text vt ge bs) = ge \<or>
   (\<exists>s' i' v'. (s', fst (extend_list text vt ge bs), i', v') \<in> set bs)"
proof (induction bs arbitrary: ge)
  case Nil
  show ?case by simp
next
  case (Cons b bs)
  obtain s2 e2 i2 v2 where b: "b = (s2, e2, i2, v2)" by (cases b) auto
  show ?case
  proof (cases "joins text vt ge b")
    case True
    with Cons.IH [of e2] b show ?thesis by auto
  next
    case False
    then show ?thesis by simp
  qed
qed



lemma group_list_last_block:
  "(s, e, indent, vt) \<in> set (group_list any text bs) \<Longrightarrow>
   \<exists>s' i' v'. (s', e, i', v') \<in> set bs"
proof (induction any "text" bs rule: group_list.induct)
  case (1 any t)
  then show ?case by (simp add: group_list.simps)
next
  case (2 any t b bs)
  obtain s0 e0 i0 v0 where b: "b = (s0, e0, i0, v0)" by (cases b) auto
  show ?case
  proof (cases "skipped any b")
    case True
    with "2.prems" have "(s, e, indent, vt) \<in> set (group_list any t bs)"
      by (simp add: group_list.simps)
    from "2.IH"(1) [OF True this] show ?thesis by auto
  next
    case False
    let ?r = "extend_list t (upper (the v0)) e0 bs"
    from "2.prems" False b have
      "(s, e, indent, vt) = (s0, fst ?r, i0, upper (the v0)) \<or>
       (s, e, indent, vt) \<in> set (group_list any t (snd ?r))"
      by (simp add: group_list.simps)
    then show ?thesis
    proof
      assume "(s, e, indent, vt) = (s0, fst ?r, i0, upper (the v0))"
      then have "e = fst ?r" by simp
      with extend_list_end [of t "upper (the v0)" e0 bs] b show ?thesis by auto
    next
      assume "(s, e, indent, vt) \<in> set (group_list any t (snd ?r))"
      from "2.IH"(2) [OF False] this b
      obtain s' i' v' where "(s', e, i', v') \<in> set (snd ?r)" by auto
      with extend_list_rest_subset [of t "upper (the v0)" e0 bs] show ?thesis by auto
    qed
  qed
qed

lemma splice_from_append:
  "\<exists>pre. \<forall>g2. splice_from text pos (g1 @ g2) = pre @ splice_from text (if g1 = [] then pos else fst (snd (last g1))) g2"
proof (induction g1 arbitrary: pos)
  case Nil
  show ?case by (intro exI [of _ "[]"]) simp
next
  case (Cons r g1)
  obtain s e indent vt where r: "r = (s, e, indent, vt)" by (cases r) auto
  from Cons [of e] obtain pre where
    pre: "\<And>g2. splice_from text e (g1 @ g2) = pre @ splice_from text (if g1 = [] then e else fst (snd (last g1))) g2"
    by blast
  show ?case
    by (intro exI [of _ "slice text pos s @ build_items indent vt @ pre"]) (simp add: r pre)
qed

lemma strip_idem: "strip (strip s) = strip s"
proof -
  define d where "d = dropWhile isspace s"
  define t where "t = rev (dropWhile isspace (rev d))"
  have st: "strip s = t" by (simp add: strip_def d_def t_def)
  have d_eq: "d = t @ rev (takeWhile isspace (rev d))"
    unfolding t_def by (metis rev_append rev_rev_ident takeWhile_dropWhile_id)
  have "dropWhile isspace t = t"
  proof (cases t)
    case Nil
    then show ?thesis by simp
  next
    case (Cons c cs)
    with d_eq have "d = c # cs @ rev (takeWhile isspace (rev d))" by simp
    then have "hd d = c" "d \<noteq> []" by (metis list.sel(1), metis list.distinct(1))
    with hd_dropWhile [of isspace s] have "\<not> isspace c" by (simp add: d_def)
    with Cons show ?thesis by simp
  qed
  moreover have "dropWhile isspace (rev t) = rev t" by (simp add: t_def)
  ultimately have "strip t = t" by (simp add: strip_def)
  with st show ?thesis by simp
qed

lemma scan_items_stripped:
  "(s, e, indent, Some v) \<in> set (scan_items text) \<Longrightarrow> strip v = v"
proof -
  assume "(s, e, indent, Some v) \<in> set (scan_items text)"
  then obtain inner where "Some v = map_option strip (TYPE_RE_search inner)"
    by (auto simp: scan_items_def)
  then obtain g where "v = strip g" by (cases "TYPE_RE_search inner") auto
  then show ?thesis by (simp add: strip_idem)
qed

lemma scan_items_close_tag:
  assumes "(s, e, indent, vtype) \<in> set (scan_items text)"
  shows "7 \<le> e \<and> e \<le> length text \<and> map tolower (slice text (e - 7) e) = ''</item>''"
proof -
  from assms obtain inner where m: "(s, e, indent, inner) \<in> set (ITEM_RE_finditer text 0)"
    by (auto simp: scan_items_def)
  from finditer_sound [OF m] have mt: "ITEM_RE_match (drop s text) = Some (e - s, indent, inner)"
    and se: "s < e" by auto
  from ITEM_RE_match_length [OF mt] se have e: "e \<le> length text" by simp
  from ITEM_RE_match_shape [OF mt] obtain op attrs cl rest where
    sh: "drop s text = indent @ op @ attrs @ ''>'' @ inner @ cl @ rest"
    "e - s = length (indent @ op @ attrs @ ''>'' @ inner @ cl)"
    "map tolower cl = map tolower ''</Item>''"
    by blast
  from sh(3) have "length (map tolower cl) = length (map tolower ''</Item>'')"
    by (rule arg_cong)
  then have lcl: "length cl = 7" by simp
  let ?pre = "indent @ op @ attrs @ ''>'' @ inner"
  have es: "e = s + length ?pre + 7" using sh(2) se lcl by simp
  have "drop (e - 7) text = drop (length ?pre) (drop s text)"
    using es by (simp add: add.commute)
  also have "\<dots> = cl @ rest" unfolding sh(1) by simp
  finally have "slice text (e - 7) e = cl"
    using es lcl by (simp add: slice_def)
  moreover from sh(3) have "map tolower cl = ''</item>''"
    by (simp only: tolower_close_tag)
  ultimately show ?thesis using es e by simp
qed


section \<open>The inclusion policy and the extent of a run\<close>


lemma lit_starts_with_ci: "lit p s \<noteq> None \<longleftrightarrow> starts_with_ci s p"
proof
  assume "lit p s \<noteq> None"
  then obtain r where "lit p s = Some r" by auto
  from lit_split [OF this] show "starts_with_ci s p"
    by (auto simp: starts_with_ci_def)
next
  assume a: "starts_with_ci s p"
  then have "lit p (take (length p) s @ drop (length p) s) = Some (drop (length p) s)"
    by (intro lit_append) (auto simp: starts_with_ci_def)
  then show "lit p s \<noteq> None" by simp
qed

lemma skipped_iff_not_qualifies:
  "skipped any (s, e, indent, vtype) \<longleftrightarrow> \<not> qualifies any vtype"
proof (cases vtype)
  case None
  then show ?thesis by (simp add: skipped_def qualifies_def)
next
  case (Some v)
  have "v = [] \<Longrightarrow> \<not> starts_with_ci v ''VMT_''" by (simp add: starts_with_ci_def)
  moreover have "startswith (upper v) ''VMT_'' \<longleftrightarrow> starts_with_ci v ''VMT_''"
    by (simp only: startswith_upper_VMT lit_starts_with_ci)
  ultimately show ?thesis using Some
    by (auto simp: skipped_def qualifies_def)
qed

lemma not_skipped_type:
  assumes "\<not> skipped any (s, e, indent, vtype)"
  shows "\<exists>v. vtype = Some v \<and> v \<noteq> [] \<and> upper v \<noteq> [] \<and> startswith (upper v) ''VMT_'' \<and>
             (any \<or> upper v \<in> targets)"
proof -
  from assms obtain v where v: "vtype = Some v" by (cases vtype) (auto simp: skipped_def)
  with assms have p: "v \<noteq> []" "startswith (upper v) ''VMT_''" "any \<or> upper v \<in> targets"
    by (auto simp: skipped_def split: if_splits)
  from p(2) have "upper v \<noteq> []" by (auto simp: startswith_def)
  with v p show ?thesis by simp
qed

lemma fullmatch_ws_list_all: "fullmatch_ws s \<longleftrightarrow> list_all isspace s"
  by (simp add: fullmatch_ws_def list_all_iff)

lemma joins_same_type_ws:
  "vt \<noteq> [] \<Longrightarrow> joins text vt ge b \<longleftrightarrow> same_type_ws text vt ge b"
proof -
  assume vt: "vt \<noteq> []"
  obtain s2 e2 i2 v2 where b: "b = (s2, e2, i2, v2)" by (cases b) auto
  have "upper (strip []) = []" by (simp add: upper_def strip_def)
  with vt b show ?thesis
    by (cases v2) (auto simp: joins_def same_type_ws_def fullmatch_ws_list_all)
qed

lemma extend_list_members:
  "vt \<noteq> [] \<Longrightarrow>
   extend_list text vt ge bs =
     (last_end ge (run_members text vt ge bs), drop (length (run_members text vt ge bs)) bs)"
  by (induction bs arbitrary: ge) (simp_all add: joins_same_type_ws)

lemma run_members_prefix:
  "take (length (run_members text vt ge bs)) bs = run_members text vt ge bs"
  by (induction bs arbitrary: ge) simp_all

lemma run_members_length: "length (run_members text vt ge bs) \<le> length bs"
  by (induction bs arbitrary: ge) simp_all

lemma group_loop_skip:
  "i < length items \<Longrightarrow> skipped any (items ! i) \<Longrightarrow>
   group_loop any text items i groups = group_loop any text items (i + 1) groups"
  by (subst group_loop.simps) simp

lemma group_loop_exit:
  "\<not> i < length items \<Longrightarrow> group_loop any text items i groups = groups"
  by (subst group_loop.simps) simp

lemma group_loop_run:
  assumes i: "i < length items" and b: "items ! i = (s, e, indent, vtype)"
    and ns: "\<not> skipped any (items ! i)"
  shows "group_loop any text items i groups =
           group_loop any text items
             (i + 1 + length (run_members text (upper (the vtype)) e (drop (i + 1) items)))
             (groups @ [(s, last_end e (run_members text (upper (the vtype)) e (drop (i + 1) items)),
                         indent, upper (the vtype))])"
proof -
  let ?vt = "upper (the vtype)"
  let ?m = "run_members text ?vt e (drop (i + 1) items)"
  from ns b not_skipped_type [of any s e indent vtype] have vt: "?vt \<noteq> []" by auto
  have len: "length ?m \<le> length items - (i + 1)"
    using run_members_length [of "text" ?vt e "drop (i + 1) items"] by simp
  have "extend_run text items ?vt (i + 1) e = (i + 1 + length ?m, last_end e ?m)"
    using i len by (simp add: extend_run_list extend_list_members [OF vt])
  with i b ns show ?thesis
    by (subst group_loop.simps) (simp add: Let_def)
qed


lemma ordered_spans_mem:
  "ordered_spans lo n rs \<Longrightarrow> (s, e, x) \<in> set rs \<Longrightarrow> lo \<le> s \<and> s < e \<and> e \<le> n"
proof (induction rs arbitrary: lo)
  case Nil
  then show ?case by simp
next
  case (Cons r rs)
  obtain s' e' x' where r: "r = (s', e', x')" by (cases r) auto
  show ?case
  proof (cases "(s, e, x) = r")
    case True
    with Cons.prems r show ?thesis by simp
  next
    case False
    with Cons.prems r have "ordered_spans e' n rs" "(s, e, x) \<in> set rs" "lo \<le> e'" by auto
    with Cons.IH [of e'] show ?thesis by auto
  qed
qed

lemma run_members_type:
  "m \<in> set (run_members text vt ge bs) \<Longrightarrow>
   \<exists>s2 e2 i2 v2. m = (s2, e2, i2, Some v2) \<and> upper (strip v2) = vt"
proof (induction bs arbitrary: ge)
  case Nil
  then show ?case by simp
next
  case (Cons b bs)
  show ?case
  proof (cases "same_type_ws text vt ge b")
    case True
    with Cons.prems have "m = b \<or> m \<in> set (run_members text vt (fst (snd b)) bs)" by simp
    then show ?thesis
    proof
      assume "m = b"
      with True show ?thesis
        by (cases b) (auto simp: same_type_ws_def split: option.splits)
    next
      assume "m \<in> set (run_members text vt (fst (snd b)) bs)"
      then show ?thesis by (rule Cons.IH)
    qed
  next
    case False
    with Cons.prems show ?thesis by simp
  qed
qed

lemma run_members_within:
  "ordered_spans ge n bs \<Longrightarrow> m \<in> set (run_members text vt ge bs) \<Longrightarrow>
   ge \<le> fst m \<and> fst (snd m) \<le> last_end ge (run_members text vt ge bs)"
proof (induction bs arbitrary: ge)
  case Nil
  then show ?case by simp
next
  case (Cons b bs)
  obtain s2 e2 x where b: "b = (s2, e2, x)" by (cases b) auto
  from Cons.prems(1) b have o: "ge \<le> s2" "s2 < e2" "e2 \<le> n" "ordered_spans e2 n bs" by auto
  show ?case
  proof (cases "same_type_ws text vt ge b")
    case True
    have up: "e2 \<le> last_end e2 (run_members text vt e2 bs)"
      using o(4)
    proof (induction bs arbitrary: e2)
      case Nil
      show ?case by simp
    next
      case (Cons a as)
      obtain s3 e3 y where a: "a = (s3, e3, y)" by (cases a) auto
      with Cons.prems have "e2 \<le> e3" "ordered_spans e3 n as" by auto
      with Cons.IH [of e3] a show ?case by simp
    qed
    from Cons.prems(2) True have "m = b \<or> m \<in> set (run_members text vt (fst (snd b)) bs)"
      by simp
    then show ?thesis
    proof
      assume "m = b"
      with True b o up show ?thesis by simp
    next
      assume "m \<in> set (run_members text vt (fst (snd b)) bs)"
      with Cons.IH [of e2] o b True show ?thesis by simp
    qed
  next
    case False
    with Cons.prems show ?thesis by simp
  qed
qed


lemma group_list_Cons_skip:
  "skipped any b \<Longrightarrow> group_list any text (b # bs) = group_list any text bs"
  by (simp add: group_list.simps)

lemma group_list_Cons_run:
  assumes "\<not> skipped any (s, e, indent, vtype)"
  shows "group_list any text ((s, e, indent, vtype) # bs) =
           (s, last_end e (run_members text (upper (the vtype)) e bs), indent, upper (the vtype))
           # group_list any text (drop (length (run_members text (upper (the vtype)) e bs)) bs)"
proof -
  from not_skipped_type [OF assms] have "upper (the vtype) \<noteq> []" by auto
  from extend_list_members [OF this] assms show ?thesis
    by (simp add: group_list.simps)
qed

lemma replaced_Cons:
  "replaced (r # groups) b \<longleftrightarrow>
     (fst r \<le> fst b \<and> fst (snd b) \<le> fst (snd r)) \<or> replaced groups b"
  by (cases r) (simp add: replaced_def)

lemma replaced_after:
  "ordered_spans lo n groups \<Longrightarrow> fst b < lo \<Longrightarrow> \<not> replaced groups b"
proof -
  assume o: "ordered_spans lo n groups" and b: "fst b < lo"
  have "\<not> (gs \<le> fst b \<and> fst (snd b) \<le> ge)" if "(gs, ge, gi, gv) \<in> set groups" for gs ge gi gv
    using ordered_spans_mem [OF o that] b by simp
  then show ?thesis by (auto simp: replaced_def list_ex_iff)
qed

lemma group_list_replaced:
  "\<lbrakk>ordered_spans lo n bs;
    \<forall>(s, e, indent, vtype) \<in> set bs. \<forall>v. vtype = Some v \<longrightarrow> strip v = v;
    b \<in> set bs\<rbrakk> \<Longrightarrow>
   replaced (group_list any text bs) b \<longleftrightarrow> \<not> skipped any b"
proof (induction "length bs" arbitrary: bs lo rule: less_induct)
  case less
  from less.prems(3) obtain b0 bs' where bs: "bs = b0 # bs'" by (cases bs) auto
  obtain s e indent vtype where b0: "b0 = (s, e, indent, vtype)" by (cases b0) auto
  from less.prems(1) bs b0 have o: "lo \<le> s" "s < e" "e \<le> n" "ordered_spans e n bs'" by auto
  from less.prems(2) bs have st: "\<forall>(s, e, indent, vtype) \<in> set bs'. \<forall>v. vtype = Some v \<longrightarrow> strip v = v"
    by auto
  show ?case
  proof (cases "skipped any b0")
    case True
    have gl: "group_list any text bs = group_list any text bs'"
      using True bs by (simp add: group_list_Cons_skip)
    show ?thesis
    proof (cases "b = b0")
      case True
      have "ordered_spans e n (group_list any text bs')" by (rule group_list_ordered [OF o(4)])
      from replaced_after [OF this, of b] True b0 o have "\<not> replaced (group_list any text bs') b"
        by simp
      with True \<open>skipped any b0\<close> gl show ?thesis by simp
    next
      case False
      with less.prems(3) bs have "b \<in> set bs'" by simp
      from less.hyps [OF _ o(4) st this] bs gl show ?thesis by simp
    qed
  next
    case ns: False
    from not_skipped_type [of any s e indent vtype] ns b0 obtain v where
      v: "vtype = Some v" "upper v \<noteq> []" "startswith (upper v) ''VMT_''" "any \<or> upper v \<in> targets"
      by auto
    let ?vt = "upper v"
    let ?m = "run_members text ?vt e bs'"
    let ?rest = "drop (length ?m) bs'"
    let ?ge = "last_end e ?m"
    have gl: "group_list any text bs = (s, ?ge, indent, ?vt) # group_list any text ?rest"
      using group_list_Cons_run [of any s e indent vtype "text" bs'] ns b0 bs v by simp
    have ext: "extend_list text ?vt e bs' = (?ge, ?rest)"
      by (rule extend_list_members [OF v(2)])
    from extend_list_ordered [OF o(4) o(3), of "text" ?vt] ext
    have r: "e \<le> ?ge" "?ge \<le> n" "ordered_spans ?ge n ?rest" by simp_all
    have split: "bs' = ?m @ ?rest"
      using run_members_prefix [of "text" ?vt e bs'] append_take_drop_id [of "length ?m" bs']
      by simp
    from less.prems(3) bs have "b = b0 \<or> b \<in> set ?m \<or> b \<in> set ?rest"
      using split by (metis set_ConsD set_append Un_iff)
    then show ?thesis
    proof (elim disjE)
      assume "b = b0"
      with b0 ns r(1) gl show ?thesis by (simp add: replaced_Cons)
    next
      assume m: "b \<in> set ?m"
      from run_members_type [OF m] obtain s2 e2 i2 v2 where
        b: "b = (s2, e2, i2, Some v2)" and ty: "upper (strip v2) = ?vt" by blast
      from run_members_within [OF o(4) m] b have w: "e \<le> s2" "e2 \<le> ?ge" by simp_all
      from m split have "b \<in> set bs'" by (metis Un_iff set_append)
      with st b have "strip v2 = v2" by auto
      with ty have up: "upper v2 = ?vt" by simp
      with v(2) have "v2 \<noteq> []" by (auto simp: upper_def)
      with up v(3,4) b have "\<not> skipped any b" by (simp add: skipped_def)
      moreover have "replaced (group_list any text bs) b"
        using gl b w o by (simp add: replaced_Cons)
      ultimately show ?thesis by simp
    next
      assume rest: "b \<in> set ?rest"
      obtain s2 e2 x where b: "b = (s2, e2, x)" by (cases b) auto
      from ordered_spans_mem [OF r(3)] rest b have "?ge \<le> s2" "s2 < e2" by auto
      then have nc: "\<not> (s \<le> fst b \<and> fst (snd b) \<le> ?ge)" using b by simp
      have st': "\<forall>(s, e, indent, vtype) \<in> set ?rest. \<forall>v. vtype = Some v \<longrightarrow> strip v = v"
        using st by (metis (no_types, lifting) in_set_dropD)
      have "length ?rest < length bs" using bs by simp
      from less.hyps [OF this r(3) st' rest] gl nc show ?thesis
        by (auto simp: replaced_Cons)
    qed
  qed
qed

section \<open>The renderer\<close>

lemma str_of_nat_25: "str_of_nat 25 = ''25''"
  by code_simp

lemma str_of_nat_50: "str_of_nat 50 = ''50''"
  by code_simp

lemma str_of_nat_75: "str_of_nat 75 = ''75''"
  by code_simp

lemma str_of_nat_100: "str_of_nat 100 = ''100''"
  by code_simp

lemmas str_of_nat_vals = str_of_nat_25 str_of_nat_50 str_of_nat_75 str_of_nat_100

lemma build_items_blocks:
  "build_items indent vtype =
     item_text indent vtype 25 @ item_text indent vtype 50 @
     item_text indent vtype 75 @ item_text indent vtype 100"
  by (simp add: build_items_def)

lemma build_items_canonical:
  "build_items indent vtype =
     canonical_block indent ''25'' vtype @ canonical_block indent ''50'' vtype @
     canonical_block indent ''75'' vtype @ canonical_block indent ''100'' vtype"
  unfolding build_items_blocks item_text_def canonical_block_def str_of_nat_vals by simp

section \<open>Scanning and grouping a rendering\<close>

lemma tolower_eq_iff_ord: "tolower c = tolower d \<longleftrightarrow> ord (tolower c) = ord (tolower d)"
  by (simp only: ord_inj)

lemma tolower_lt: "tolower c = tolower (CHR ''<'') \<longleftrightarrow> c = CHR ''<''"
proof -
  have "ord (CHR ''<'') = 60" by (simp add: ord_def)
  then have "tolower c = tolower (CHR ''<'') \<longleftrightarrow> ord c = ord (CHR ''<'')"
    unfolding tolower_eq_iff_ord ord_tolower by auto
  then show ?thesis by (simp only: ord_inj)
qed

lemma lit_not_lt: "c \<noteq> CHR ''<'' \<Longrightarrow> lit (CHR ''<'' # p) (c # cs) = None"
  by (simp add: tolower_lt)

lemma lazy_close_skip_char:
  "c \<noteq> CHR ''<'' \<Longrightarrow>
   lazy_close (c # cs) = map_option (\<lambda>(inner, r). (c # inner, r)) (lazy_close cs)"
  by (simp add: tolower_lt split: option.splits)

lemma lazy_close_skip:
  "\<forall>c \<in> set xs. c \<noteq> CHR ''<'' \<Longrightarrow>
   lazy_close (xs @ ys) = map_option (\<lambda>(inner, r). (xs @ inner, r)) (lazy_close ys)"
proof (induction xs)
  case Nil
  show ?case by (simp add: option.map_ident split_def)
next
  case (Cons x xs)
  then show ?case
    by (simp add: lazy_close_skip_char option.map_comp comp_def split_def del: lazy_close.simps)
qed

lemma lazy_close_lt:
  "lit ''/Item>'' cs = None \<Longrightarrow>
   lazy_close (CHR ''<'' # cs) = map_option (\<lambda>(inner, r). (CHR ''<'' # inner, r)) (lazy_close cs)"
  by (simp split: option.splits)

lemma lit_slash_not: "c \<noteq> CHR ''/'' \<Longrightarrow> lit (CHR ''/'' # p) (c # cs) = None"
proof -
  assume c: "c \<noteq> CHR ''/''"
  have "ord (CHR ''/'') = 47" by (simp add: ord_def)
  then have "tolower c = tolower (CHR ''/'') \<longleftrightarrow> ord c = ord (CHR ''/'')"
    unfolding tolower_eq_iff_ord ord_tolower by auto
  with c show ?thesis by (simp add: ord_inj)
qed

lemma canonical_block_inner:
  "canonical_block indent val vtype =
     indent @ ''<Item>'' @ canonical_inner indent val vtype @ ''</Item>'' @ ''\<newline>''"
  by (simp add: canonical_block_def canonical_inner_def)

lemma lazy_close_here:
  "lazy_close (CHR ''<'' # CHR ''/'' # CHR ''I'' # CHR ''t'' # CHR ''e'' # CHR ''m'' # CHR ''>'' # rest)
     = Some ([], rest)"
  by simp

lemma lazy_close_canonical_inner:
  assumes "\<forall>c \<in> set indent. c \<noteq> CHR ''<''" "\<forall>c \<in> set val. c \<noteq> CHR ''<''"
    "\<forall>c \<in> set vtype. c \<noteq> CHR ''<''"
  shows "lazy_close (canonical_inner indent val vtype @ ''</Item>'' @ rest)
           = Some (canonical_inner indent val vtype, rest)"
  unfolding canonical_inner_def
  using assms
  by (simp add: lazy_close_skip_char lazy_close_skip lazy_close_lt lit_slash_not
        lazy_close_here
        option.map_comp comp_def split_def tolower_def ord_def
        del: lazy_close.simps)

lemma canonical_block_item:
  "canonical_block indent val vtype = canonical_item indent val vtype @ ''\<newline>''"
  by (simp add: canonical_block_inner canonical_item_def)

lemma takeWhile_blank_indent:
  assumes "\<forall>c \<in> set indent. c = CHR '' '' \<or> c = CHR 0x09"
  shows "takeWhile (\<lambda>c. c = CHR '' '' \<or> c = CHR 0x09) (indent @ CHR ''<'' # xs) = indent"
    and "dropWhile (\<lambda>c. c = CHR '' '' \<or> c = CHR 0x09) (indent @ CHR ''<'' # xs) = CHR ''<'' # xs"
  using assms by (subst takeWhile_append2, auto)[1] (subst dropWhile_append2, use assms in auto)

lemma ITEM_RE_match_open_tag:
  assumes indent: "\<forall>c \<in> set indent. c = CHR '' '' \<or> c = CHR 0x09"
  shows "ITEM_RE_match (indent @ CHR ''<'' # ''Item>'' @ r2) =
           (case lazy_close r2 of
              None \<Rightarrow> None
            | Some (inner, r3) \<Rightarrow>
                Some (length (indent @ CHR ''<'' # ''Item>'' @ r2) - length r3, indent, inner))"
  unfolding ITEM_RE_match_def Let_def takeWhile_blank_indent [OF indent]
  by (simp add: isword_def ord_def)

lemma blank_not_lt:
  assumes "\<forall>c \<in> set indent. c = CHR '' '' \<or> c = CHR 0x09"
  shows "\<forall>c \<in> set indent. c \<noteq> CHR ''<''"
proof
  fix c assume "c \<in> set indent"
  with assms have "c = CHR '' '' \<or> c = CHR 0x09" by (rule bspec)
  then show "c \<noteq> CHR ''<''" by (rule disjE) simp_all
qed

lemma ITEM_RE_match_item:
  assumes indent: "\<forall>c \<in> set indent. c = CHR '' '' \<or> c = CHR 0x09"
    and lc: "lazy_close (inner @ ''</Item>'' @ rest) = Some (inner, rest)"
  shows "ITEM_RE_match (indent @ ''<Item>'' @ inner @ ''</Item>'' @ rest)
          = Some (length (indent @ ''<Item>'' @ inner @ ''</Item>''), indent, inner)"
proof -
  have "ITEM_RE_match (indent @ CHR ''<'' # ''Item>'' @ (inner @ ''</Item>'' @ rest))
          = Some (length (indent @ CHR ''<'' # ''Item>'' @ (inner @ ''</Item>'' @ rest))
                    - length rest, indent, inner)"
    unfolding ITEM_RE_match_open_tag [OF indent] lc by simp
  then show ?thesis by simp
qed

lemma ITEM_RE_match_canonical:
  assumes indent: "\<forall>c \<in> set indent. c = CHR '' '' \<or> c = CHR 0x09"
    and val: "\<forall>c \<in> set val. c \<noteq> CHR ''<''"
    and vtype: "\<forall>c \<in> set vtype. c \<noteq> CHR ''<''"
  shows "ITEM_RE_match (canonical_item indent val vtype @ rest)
           = Some (length (canonical_item indent val vtype), indent,
                   canonical_inner indent val vtype)"
proof -
  have lc: "lazy_close (canonical_inner indent val vtype @ ''</Item>'' @ rest)
              = Some (canonical_inner indent val vtype, rest)"
    by (rule lazy_close_canonical_inner [OF blank_not_lt [OF indent] val vtype])
  from ITEM_RE_match_item [OF indent lc] show ?thesis
    by (simp add: canonical_item_def)
qed

lemma finditer_step:
  assumes m: "ITEM_RE_match (X @ CHR 0x0A # rest) = Some (length X, indent, inner)"
    and pre: "pre = [] \<or> last pre = CHR 0x0A"
    and X: "X \<noteq> []" "last X \<noteq> CHR 0x0A"
  shows "ITEM_RE_finditer (pre @ X @ CHR 0x0A # rest) (length pre) =
           (length pre, length pre + length X, indent, inner)
           # ITEM_RE_finditer (pre @ X @ CHR 0x0A # rest) (length pre + length X + 1)"
proof -
  let ?t = "pre @ X @ CHR 0x0A # rest"
  have bol: "length pre = 0 \<or> ?t ! (length pre - 1) = CHR 0x0A"
    using pre by (cases "pre = []") (simp_all add: nth_append last_conv_nth)
  have "ITEM_RE_finditer ?t (length pre) =
          (length pre, length pre + length X, indent, inner)
          # ITEM_RE_finditer ?t (length pre + length X)"
    using m bol by (intro finditer_match) simp_all
  moreover have "?t ! (length pre + length X - 1) = last X"
  proof -
    from X(1) obtain n where n: "length X = Suc n" by (cases X) auto
    then have "?t ! (length pre + length X - 1) = (X @ CHR 0x0A # rest) ! n"
      by (simp add: nth_append)
    also have "\<dots> = X ! n" using n by (simp add: nth_append)
    also have "\<dots> = last X" using n X(1) by (simp add: last_conv_nth)
    finally show ?thesis .
  qed
  then have "ITEM_RE_finditer ?t (length pre + length X) =
               ITEM_RE_finditer ?t (length pre + length X + 1)"
    using X by (intro finditer_skip) simp_all
  ultimately show ?thesis by simp
qed

lemma finditer_none:
  "(\<And>s. pos \<le> s \<Longrightarrow> ITEM_RE_match (drop s text) = None) \<Longrightarrow> ITEM_RE_finditer text pos = []"
proof (rule ccontr)
  assume none: "\<And>s. pos \<le> s \<Longrightarrow> ITEM_RE_match (drop s text) = None"
    and "ITEM_RE_finditer text pos \<noteq> []"
  then obtain m where "m \<in> set (ITEM_RE_finditer text pos)"
    by (metis last_in_set)
  then obtain s e i x where "(s, e, i, x) \<in> set (ITEM_RE_finditer text pos)"
    by (metis prod_cases4)
  from finditer_sound [OF this] none [of s] show False by simp
qed

lemma ITEM_RE_match_line_feeds: "ITEM_RE_match (replicate k (CHR 0x0A)) = None"
  by (cases k) (simp_all add: ITEM_RE_match_def tolower_lt)

lemma canonical_text_Cons:
  "canonical_text indent vtype (val # vals)
     = canonical_item indent val vtype @ CHR 0x0A # canonical_text indent vtype vals"
  by (simp add: canonical_text_def canonical_block_item)

lemma canonical_item_last:
  "canonical_item indent val vtype \<noteq> [] \<and> last (canonical_item indent val vtype) \<noteq> CHR 0x0A"
  by (simp add: canonical_item_def)

lemma finditer_canonical:
  assumes indent: "\<forall>c \<in> set indent. c = CHR '' '' \<or> c = CHR 0x09"
    and vtype: "\<forall>c \<in> set vtype. c \<noteq> CHR ''<''"
  shows "\<lbrakk>\<forall>val \<in> set vals. \<forall>c \<in> set val. c \<noteq> CHR ''<''; pre = [] \<or> last pre = CHR 0x0A\<rbrakk> \<Longrightarrow>
         ITEM_RE_finditer (pre @ canonical_text indent vtype vals @ replicate k (CHR 0x0A)) (length pre)
           = canonical_spans (length pre) indent vtype vals"
proof (induction vals arbitrary: pre)
  case Nil
  have "ITEM_RE_match (drop s (pre @ replicate k (CHR 0x0A))) = None" if "length pre \<le> s" for s
  proof -
    from that have "drop s (pre @ replicate k (CHR 0x0A)) = replicate (k - (s - length pre)) (CHR 0x0A)"
      by simp
    then show ?thesis by (simp only: ITEM_RE_match_line_feeds)
  qed
  then show ?case by (simp add: canonical_text_def finditer_none)
next
  case (Cons val vals)
  let ?X = "canonical_item indent val vtype"
  let ?rest = "canonical_text indent vtype vals @ replicate k (CHR 0x0A)"
  from Cons.prems(1) have val: "\<forall>c \<in> set val. c \<noteq> CHR ''<''"
    and vals: "\<forall>val \<in> set vals. \<forall>c \<in> set val. c \<noteq> CHR ''<''" by simp_all
  have m: "ITEM_RE_match (?X @ CHR 0x0A # ?rest) = Some (length ?X, indent, canonical_inner indent val vtype)"
    by (rule ITEM_RE_match_canonical [OF indent val vtype])
  from finditer_step [OF m Cons.prems(2)] canonical_item_last [of indent val vtype]
  have step: "ITEM_RE_finditer (pre @ ?X @ CHR 0x0A # ?rest) (length pre) =
           (length pre, length pre + length ?X, indent, canonical_inner indent val vtype)
           # ITEM_RE_finditer (pre @ ?X @ CHR 0x0A # ?rest) (length pre + length ?X + 1)"
    by simp
  have "ITEM_RE_finditer ((pre @ ?X @ [CHR 0x0A]) @ ?rest) (length (pre @ ?X @ [CHR 0x0A]))
          = canonical_spans (length (pre @ ?X @ [CHR 0x0A])) indent vtype vals"
    by (rule Cons.IH [OF vals]) simp
  then have "ITEM_RE_finditer (pre @ ?X @ CHR 0x0A # ?rest) (length pre + length ?X + 1)
          = canonical_spans (length pre + length ?X + 1) indent vtype vals"
    by simp
  with step show ?case by (simp add: canonical_text_Cons)
qed

lemma TYPE_RE_search_skip_char:
  "c \<noteq> CHR ''<'' \<Longrightarrow> TYPE_RE_search (c # cs) = TYPE_RE_search cs"
  by (simp add: TYPE_RE_match_def tolower_lt)

lemma TYPE_RE_search_skip:
  "\<forall>c \<in> set xs. c \<noteq> CHR ''<'' \<Longrightarrow> TYPE_RE_search (xs @ ys) = TYPE_RE_search ys"
  by (induction xs) (simp_all add: TYPE_RE_search_skip_char del: TYPE_RE_search.simps)

lemma TYPE_RE_search_lt:
  "lit ''type>'' cs = None \<Longrightarrow> TYPE_RE_search (CHR ''<'' # cs) = TYPE_RE_search cs"
  by (simp add: TYPE_RE_match_def)

lemma TYPE_RE_match_type:
  assumes "\<forall>c \<in> set vtype. c \<noteq> CHR ''<''" "vtype \<noteq> []" "dropWhile isspace vtype = vtype"
  shows "TYPE_RE_match (''<type>'' @ vtype @ ''</type>'' @ r) = Some vtype"
proof -
  have l1: "lit ''<type>'' (''<type>'' @ vtype @ ''</type>'' @ r) = Some (vtype @ ''</type>'' @ r)"
    by simp
  have tw: "takeWhile (\<lambda>c. c \<noteq> CHR ''<'') (vtype @ ''</type>'' @ r) = vtype"
    using assms(1) by (subst takeWhile_append2) simp_all
  have dw: "dropWhile (\<lambda>c. c \<noteq> CHR ''<'') (vtype @ ''</type>'' @ r) = ''</type>'' @ r"
    using assms(1) by (subst dropWhile_append2) simp_all
  have l2: "lit ''</type>'' (''</type>'' @ r) = Some r" by simp
  show ?thesis
    unfolding TYPE_RE_match_def l1 option.case Let_def tw dw l2 using assms(2,3) by simp
qed

lemma TYPE_RE_search_type:
  assumes "\<forall>c \<in> set vtype. c \<noteq> CHR ''<''" "vtype \<noteq> []" "dropWhile isspace vtype = vtype"
  shows "TYPE_RE_search (CHR ''<'' # CHR ''t'' # CHR ''y'' # CHR ''p'' # CHR ''e'' # CHR ''>'' #
           vtype @ CHR ''<'' # CHR ''/'' # CHR ''t'' # CHR ''y'' # CHR ''p'' # CHR ''e'' # CHR ''>'' # r)
         = Some vtype"
  using TYPE_RE_match_type [OF assms, of r] by (simp del: lit.simps)

lemma TYPE_RE_search_canonical_inner:
  assumes "\<forall>c \<in> set indent. c \<noteq> CHR ''<''" "\<forall>c \<in> set val. c \<noteq> CHR ''<''"
    "\<forall>c \<in> set vtype. c \<noteq> CHR ''<''" "vtype \<noteq> []" "dropWhile isspace vtype = vtype"
  shows "TYPE_RE_search (canonical_inner indent val vtype) = Some vtype"
  unfolding canonical_inner_def
  using assms(1,2)
  by (simp add: TYPE_RE_search_skip_char TYPE_RE_search_skip TYPE_RE_search_lt
        TYPE_RE_search_type [OF assms(3,4,5)]
        tolower_def ord_def
        del: TYPE_RE_search.simps)

lemma strip_fixed_dropWhile: "strip s = s \<Longrightarrow> dropWhile isspace s = s"
proof -
  assume a: "strip s = s"
  let ?d = "dropWhile isspace s"
  have "length (strip s) \<le> length ?d"
    unfolding strip_def using length_dropWhile_le [of isspace "rev ?d"] by simp
  with a have "length s \<le> length ?d" by simp
  moreover have "s = takeWhile isspace s @ ?d" by simp
  then have "length s = length (takeWhile isspace s) + length ?d"
    by (metis length_append)
  ultimately have "takeWhile isspace s = []" by simp
  then show ?thesis by (metis append_Nil takeWhile_dropWhile_id)
qed

lemma scan_items_canonical:
  assumes indent: "\<forall>c \<in> set indent. c = CHR '' '' \<or> c = CHR 0x09"
    and vtype: "\<forall>c \<in> set vtype. c \<noteq> CHR ''<''" "vtype \<noteq> []" "strip vtype = vtype"
    and vals: "\<forall>val \<in> set vals. \<forall>c \<in> set val. c \<noteq> CHR ''<''"
  shows "scan_items (canonical_text indent vtype vals @ replicate k (CHR 0x0A))
           = canonical_blocks 0 indent vtype vals"
proof -
  have "map (\<lambda>(s, e, indent, inner). (s, e, indent, map_option strip (TYPE_RE_search inner)))
            (canonical_spans p indent vtype vs) = canonical_blocks p indent vtype vs"
    if "\<forall>val \<in> set vs. \<forall>c \<in> set val. c \<noteq> CHR ''<''" for p vs
    using that
  proof (induction vs arbitrary: p)
    case Nil
    show ?case by simp
  next
    case (Cons v vs)
    then have v: "\<forall>c \<in> set v. c \<noteq> CHR ''<''" by simp
    have "TYPE_RE_search (canonical_inner indent v vtype) = Some vtype"
      by (rule TYPE_RE_search_canonical_inner
                 [OF blank_not_lt [OF indent] v vtype(1,2) strip_fixed_dropWhile [OF vtype(3)]])
    with Cons vtype(3) show ?case by simp
  qed
  with finditer_canonical [OF indent vtype(1) vals, of "[]" k] vals
  show ?thesis by (simp add: scan_items_def)
qed

lemma canonical_text_length:
  "length (canonical_text indent vtype (val # vals))
     = length (canonical_item indent val vtype) + 1 + length (canonical_text indent vtype vals)"
  by (simp add: canonical_text_Cons)

lemma last_end_canonical:
  "last_end ge (canonical_blocks p indent vtype (val # vals)) =
     p + length (canonical_text indent vtype (val # vals)) - 1"
proof (induction vals arbitrary: ge p val)
  case Nil
  show ?case by (simp add: canonical_text_def canonical_block_item)
next
  case (Cons v vs)
  have "last_end ge (canonical_blocks p indent vtype (val # v # vs))
          = last_end (p + length (canonical_item indent val vtype))
              (canonical_blocks (p + length (canonical_item indent val vtype) + 1) indent vtype (v # vs))"
    by simp
  also have "\<dots> = p + length (canonical_item indent val vtype) + 1
                      + length (canonical_text indent vtype (v # vs)) - 1"
    by (rule Cons.IH)
  finally show ?case by (simp only: canonical_text_length [of indent vtype val "v # vs"])
qed

lemma run_members_canonical:
  assumes vtype: "upper (strip vtype) = vtype"
  shows "\<lbrakk>pre \<noteq> []; last pre = CHR 0x0A\<rbrakk> \<Longrightarrow>
         run_members (pre @ canonical_text indent vtype vals @ tail) vtype (length pre - 1)
           (canonical_blocks (length pre) indent vtype vals)
         = canonical_blocks (length pre) indent vtype vals"
proof (induction vals arbitrary: pre)
  case Nil
  show ?case by simp
next
  case (Cons val vals)
  let ?X = "canonical_item indent val vtype"
  let ?text = "pre @ canonical_text indent vtype (val # vals) @ tail"
  from Cons.prems obtain n where n: "length pre = Suc n" by (cases pre) auto
  have "drop (length pre - 1) ?text = last pre # canonical_text indent vtype (val # vals) @ tail"
    using Cons.prems(1) n by (simp add: drop_Suc last_conv_nth Cons_nth_drop_Suc [symmetric]
                                   drop_all)
  then have "slice ?text (length pre - 1) (length pre) = [CHR 0x0A]"
    using Cons.prems n by (simp add: slice_def)
  moreover have "isspace (CHR 0x0A)" by (simp add: isspace_def ord_def)
  ultimately have st: "same_type_ws ?text vtype (length pre - 1)
                         (length pre, length pre + length ?X, indent, Some vtype)"
    using vtype by (simp add: same_type_ws_def)
  have "run_members ((pre @ ?X @ [CHR 0x0A]) @ canonical_text indent vtype vals @ tail) vtype
          (length (pre @ ?X @ [CHR 0x0A]) - 1)
          (canonical_blocks (length (pre @ ?X @ [CHR 0x0A])) indent vtype vals)
        = canonical_blocks (length (pre @ ?X @ [CHR 0x0A])) indent vtype vals"
    by (rule Cons.IH) simp_all
  then have "run_members ?text vtype (length pre + length ?X)
          (canonical_blocks (length pre + length ?X + 1) indent vtype vals)
        = canonical_blocks (length pre + length ?X + 1) indent vtype vals"
    by (simp add: canonical_text_Cons)
  with st show ?case by simp
qed

lemma canonical_text_ends:
  "vals \<noteq> [] \<Longrightarrow> \<exists>body. canonical_text indent vtype vals = body @ [CHR 0x0A]"
proof (induction vals rule: rev_induct)
  case Nil
  then show ?case by simp
next
  case (snoc v vs)
  have "canonical_text indent vtype (vs @ [v])
          = (canonical_text indent vtype vs @ canonical_item indent v vtype) @ [CHR 0x0A]"
    by (simp add: canonical_text_def canonical_block_item)
  then show ?case by blast
qed

lemma find_groups_canonical:
  assumes indent: "\<forall>c \<in> set indent. c = CHR '' '' \<or> c = CHR 0x09"
    and vtype: "\<forall>c \<in> set vtype. c \<noteq> CHR ''<''" "strip vtype = vtype" "upper vtype = vtype"
      "qualifies any (Some vtype)"
    and vals: "\<forall>val \<in> set vals. \<forall>c \<in> set val. c \<noteq> CHR ''<''" "vals \<noteq> []"
  shows "find_groups any (canonical_text indent vtype vals @ replicate k (CHR 0x0A))
           = [(0, length (canonical_text indent vtype vals) - 1, indent, vtype)]"
proof -
  let ?text = "canonical_text indent vtype vals @ replicate k (CHR 0x0A)"
  from vals(2) obtain val vs where v: "vals = val # vs" by (cases vals) auto
  let ?X = "canonical_item indent val vtype"
  let ?bs = "canonical_blocks (length ?X + 1) indent vtype vs"
  from vtype(4) have ne: "vtype \<noteq> []"
    by (auto simp: qualifies_def starts_with_ci_def)
  have items: "scan_items ?text = (0, length ?X, indent, Some vtype) # ?bs"
    using scan_items_canonical [OF indent vtype(1) ne vtype(2) vals(1), of k] v by simp
  have ns: "\<not> skipped any (0, length ?X, indent, Some vtype)"
    using vtype(4) by (simp add: skipped_iff_not_qualifies)
  have tx: "?text = (?X @ [CHR 0x0A]) @ canonical_text indent vtype vs @ replicate k (CHR 0x0A)"
    by (simp add: v canonical_text_Cons)
  have "run_members ((?X @ [CHR 0x0A]) @ canonical_text indent vtype vs @ replicate k (CHR 0x0A))
          vtype (length (?X @ [CHR 0x0A]) - 1)
          (canonical_blocks (length (?X @ [CHR 0x0A])) indent vtype vs)
        = canonical_blocks (length (?X @ [CHR 0x0A])) indent vtype vs"
    by (rule run_members_canonical) (simp_all add: vtype(2,3))
  then have m: "run_members ?text vtype (length ?X) ?bs = ?bs"
    unfolding tx by simp
  have le: "last_end (length ?X) ?bs = length (canonical_text indent vtype vals) - 1"
    using last_end_canonical [of 0 0 indent vtype val vs] v by simp
  have "group_list any ?text ((0, length ?X, indent, Some vtype) # ?bs)
          = (0, last_end (length ?X) (run_members ?text (upper (the (Some vtype))) (length ?X) ?bs),
             indent, upper (the (Some vtype)))
            # group_list any ?text
                (drop (length (run_members ?text (upper (the (Some vtype))) (length ?X) ?bs)) ?bs)"
    by (rule group_list_Cons_run [OF ns])
  then have "group_list any ?text ((0, length ?X, indent, Some vtype) # ?bs)
          = (0, last_end (length ?X) (run_members ?text vtype (length ?X) ?bs), indent, vtype)
            # group_list any ?text (drop (length (run_members ?text vtype (length ?X) ?bs)) ?bs)"
    by (simp only: option.sel vtype(3))
  then have "group_list any ?text ((0, length ?X, indent, Some vtype) # ?bs)
          = [(0, length (canonical_text indent vtype vals) - 1, indent, vtype)]"
    unfolding m le by (simp add: group_list.simps)
  then show ?thesis
    by (simp only: find_groups_list items)
qed

lemma build_items_canonical_text:
  "build_items indent vtype = canonical_text indent vtype [''25'', ''50'', ''75'', ''100'']"
  by (simp add: build_items_canonical canonical_text_def)

lemma normalize_canonical_text:
  assumes indent: "\<forall>c \<in> set indent. c = CHR '' '' \<or> c = CHR 0x09"
    and vtype: "\<forall>c \<in> set vtype. c \<noteq> CHR ''<''" "strip vtype = vtype" "upper vtype = vtype"
      "qualifies any (Some vtype)"
    and vals: "\<forall>val \<in> set vals. \<forall>c \<in> set val. c \<noteq> CHR ''<''" "vals \<noteq> []"
  shows "normalize any (canonical_text indent vtype vals @ replicate k (CHR 0x0A))
           = Replaced (build_items indent vtype @ replicate (Suc k) (CHR 0x0A)) 1"
proof -
  let ?ct = "canonical_text indent vtype vals"
  let ?t = "?ct @ replicate k (CHR 0x0A)"
  from vtype(4) have ne: "vtype \<noteq> []"
    by (auto simp: qualifies_def starts_with_ci_def)
  have g: "find_groups any ?t = [(0, length ?ct - 1, indent, vtype)]"
    by (rule find_groups_canonical [OF indent vtype vals])
  from vals(2) obtain val vs where v: "vals = val # vs" by (cases vals) auto
  have "scan_items ?t = canonical_blocks 0 indent vtype vals"
    by (rule scan_items_canonical [OF indent vtype(1) ne vtype(2) vals(1)])
  then have items: "scan_items ?t \<noteq> []" by (simp add: v)
  from canonical_text_ends [OF vals(2), of indent vtype] obtain body where
    body: "?ct = body @ [CHR 0x0A]" by blast
  have "apply_replacements ?t [(0, length ?ct - 1, indent, vtype)]
          = build_items indent vtype @ drop (length ?ct - 1) ?t"
    by (simp add: apply_replacements_splice slice_def)
  also have "drop (length ?ct - 1) ?t = CHR 0x0A # replicate k (CHR 0x0A)"
    unfolding body by simp
  finally have "apply_replacements ?t [(0, length ?ct - 1, indent, vtype)]
          = build_items indent vtype @ replicate (Suc k) (CHR 0x0A)"
    by simp
  with g items show ?thesis by (simp add: normalize_def)
qed

lemma file_after_canonical_text:
  assumes "\<forall>c \<in> set indent. c = CHR '' '' \<or> c = CHR 0x09"
    and "\<forall>c \<in> set vtype. c \<noteq> CHR ''<''" "strip vtype = vtype" "upper vtype = vtype"
      "qualifies any (Some vtype)"
    and "\<forall>val \<in> set vals. \<forall>c \<in> set val. c \<noteq> CHR ''<''" "vals \<noteq> []"
  shows "file_after any (canonical_text indent vtype vals @ replicate k (CHR 0x0A))
           = build_items indent vtype @ replicate (Suc k) (CHR 0x0A)"
  by (simp add: file_after_def normalize_canonical_text [OF assms])

lemma file_after_build_items:
  assumes "\<forall>c \<in> set indent. c = CHR '' '' \<or> c = CHR 0x09"
    and "\<forall>c \<in> set vtype. c \<noteq> CHR ''<''" "strip vtype = vtype" "upper vtype = vtype"
      "qualifies any (Some vtype)"
  shows "file_after any (build_items indent vtype @ replicate k (CHR 0x0A))
           = build_items indent vtype @ replicate (Suc k) (CHR 0x0A)"
proof -
  have "file_after any (canonical_text indent vtype [''25'', ''50'', ''75'', ''100'']
                         @ replicate k (CHR 0x0A))
          = build_items indent vtype @ replicate (Suc k) (CHR 0x0A)"
    by (rule file_after_canonical_text [OF assms]) simp_all
  then show ?thesis by (simp only: build_items_canonical_text [symmetric])
qed

lemma file_after_funpow:
  assumes "\<forall>c \<in> set indent. c = CHR '' '' \<or> c = CHR 0x09"
    and "\<forall>c \<in> set vtype. c \<noteq> CHR ''<''" "strip vtype = vtype" "upper vtype = vtype"
      "qualifies any (Some vtype)"
  shows "(file_after any ^^ n) (build_items indent vtype @ replicate k (CHR 0x0A))
           = build_items indent vtype @ replicate (k + n) (CHR 0x0A)"
proof (induction n)
  case 0
  show ?case by simp
next
  case (Suc n)
  then show ?case by (simp add: file_after_build_items [OF assms])
qed

lemma one_line_item_first:
  "file_after False ''<Item><type>vmt_engine</type></Item>\<newline>''
     = build_items [] ''VMT_ENGINE'' @ ''\<newline>''"
  by code_simp

text \<open>
  C4. \<open>build_items\<close> is a function of the indentation and the type alone, and for every
  indentation and every type its result is exactly four item blocks, for the modifier
  values 25, 50, 75 and 100 in this order. Each block has the empty identifier, the
  modifier value, the audio-apply value \<open>1.000000\<close>, the weight \<open>0\<close> and the given type as
  the content of its type tag, and each of its seven lines starts with the indentation.
\<close>

theorem build_items_four_canonical_blocks:
  \<open>build_items indent vtype =
     indent @ ''<Item>\<newline>'' @
     indent @ ''  <identifier />\<newline>'' @
     indent @ ''  <modifier value="25" />\<newline>'' @
     indent @ ''  <audioApply value="1.000000" />\<newline>'' @
     indent @ ''  <weight value="0" />\<newline>'' @
     indent @ ''  <type>'' @ vtype @ ''</type>\<newline>'' @
     indent @ ''</Item>\<newline>'' @
     indent @ ''<Item>\<newline>'' @
     indent @ ''  <identifier />\<newline>'' @
     indent @ ''  <modifier value="50" />\<newline>'' @
     indent @ ''  <audioApply value="1.000000" />\<newline>'' @
     indent @ ''  <weight value="0" />\<newline>'' @
     indent @ ''  <type>'' @ vtype @ ''</type>\<newline>'' @
     indent @ ''</Item>\<newline>'' @
     indent @ ''<Item>\<newline>'' @
     indent @ ''  <identifier />\<newline>'' @
     indent @ ''  <modifier value="75" />\<newline>'' @
     indent @ ''  <audioApply value="1.000000" />\<newline>'' @
     indent @ ''  <weight value="0" />\<newline>'' @
     indent @ ''  <type>'' @ vtype @ ''</type>\<newline>'' @
     indent @ ''</Item>\<newline>'' @
     indent @ ''<Item>\<newline>'' @
     indent @ ''  <identifier />\<newline>'' @
     indent @ ''  <modifier value="100" />\<newline>'' @
     indent @ ''  <audioApply value="1.000000" />\<newline>'' @
     indent @ ''  <weight value="0" />\<newline>'' @
     indent @ ''  <type>'' @ vtype @ ''</type>\<newline>'' @
     indent @ ''</Item>\<newline>''\<close>
  unfolding build_items_blocks item_text_def str_of_nat_vals by simp


text \<open>
  C9. The new text of a file and the number of replaced runs depend on the text of the
  file and on the inclusion policy only: two iterations of the file loop on files with
  the same text under the same policy, whatever their paths, the other files, the lines
  already printed, the counter and the dry-run flags, report the same number of runs,
  and when they write, they write the same text, which is the result of the
  transformation on the text.
\<close>

theorem same_text_same_policy_same_output:
  assumes "fs w1 meta1 = Some text" and "fs w2 meta2 = Some text"
  shows "fs (process_file any False w1 meta1) meta1 = fs (process_file any False w2 meta2) meta2
       \<and> fs (process_file any False w1 meta1) meta1 = Some (file_after any text)
       \<and> replaced_runs (last (printed (process_file any dry1 w1 meta1)))
           = replaced_runs (last (printed (process_file any dry2 w2 meta2)))
       \<and> replaced_runs (last (printed (process_file any dry1 w1 meta1)))
           = (case normalize any text of Replaced new_text n \<Rightarrow> Some n | _ \<Rightarrow> None)"
  using assms
  by (cases "normalize any text") (simp_all add: process_file_def file_after_def)

theorem same_text_same_policy_same_output_witness:
  "fs (process_file False False
         \<lparr>fs = [''a/carcols.meta'' \<mapsto> two_runs], printed = [], updated = 0\<rparr> ''a/carcols.meta'')
      ''a/carcols.meta''
   = fs (process_file False False
         \<lparr>fs = [''b/carcols.meta'' \<mapsto> two_runs], printed = [No_Item_Blocks ''c/carcols.meta''],
          updated = 1\<rparr> ''b/carcols.meta'')
      ''b/carcols.meta''
   \<and> fs (process_file False False
         \<lparr>fs = [''a/carcols.meta'' \<mapsto> two_runs], printed = [], updated = 0\<rparr> ''a/carcols.meta'')
      ''a/carcols.meta'' = Some (file_after False two_runs)
   \<and> replaced_runs (last (printed (process_file False False
         \<lparr>fs = [''a/carcols.meta'' \<mapsto> two_runs], printed = [], updated = 0\<rparr> ''a/carcols.meta'')))
     = replaced_runs (last (printed (process_file False True
         \<lparr>fs = [''b/carcols.meta'' \<mapsto> two_runs], printed = [No_Item_Blocks ''c/carcols.meta''],
          updated = 1\<rparr> ''b/carcols.meta'')))
   \<and> replaced_runs (last (printed (process_file False False
         \<lparr>fs = [''a/carcols.meta'' \<mapsto> two_runs], printed = [], updated = 0\<rparr> ''a/carcols.meta'')))
     = Some 2"
proof -
  have n: "normalize False two_runs
             = Replaced (apply_replacements two_runs (find_groups False two_runs)) 2"
    by (simp add: normalize_def two_runs_items two_runs_groups)
  have a: "fs \<lparr>fs = [''a/carcols.meta'' \<mapsto> two_runs], printed = [], updated = 0\<rparr> ''a/carcols.meta''
             = Some two_runs"
    by simp
  have b: "fs \<lparr>fs = [''b/carcols.meta'' \<mapsto> two_runs], printed = [No_Item_Blocks ''c/carcols.meta''],
               updated = 1\<rparr> ''b/carcols.meta'' = Some two_runs"
    by simp
  show ?thesis
    by (rule same_text_same_policy_same_output
          [OF a b, of False False True, unfolded n outcome.case])
qed


text \<open>
  C8. For every text and either policy the runs found by the grouping loops are ordered
  within the text: every run is a non-empty span that ends at or before the end of the
  text and starts at or after the end of the run before it, so the runs come in the
  order of their starting blocks and no two of them overlap.
\<close>

theorem find_groups_ordered_in_text:
  "ordered_spans 0 (length text) (find_groups any text) \<and>
   (\<forall>i j. i < j \<and> j < length (find_groups any text) \<longrightarrow>
      fst (snd (find_groups any text ! i)) \<le> fst (find_groups any text ! j))"
  using find_groups_ordered [of "text" any] ordered_spans_nth by blast

theorem find_groups_ordered_in_text_witness:
  "ordered_spans 0 85 ([(0, 36, [], ''VMT_ENGINE''), (48, 84, [], ''VMT_BRAKES'')] :: run list) \<and>
   fst (snd (find_groups False two_runs ! 0)) \<le> fst (find_groups False two_runs ! 1) \<and>
   fst (snd (find_groups False two_runs ! 0)) = 36 \<and> fst (find_groups False two_runs ! 1) = 48"
proof -
  note inst = find_groups_ordered_in_text [of two_runs False]
  from inst have "ordered_spans 0 (length two_runs) (find_groups False two_runs)" ..
  then have "ordered_spans 0 85 ([(0, 36, [], ''VMT_ENGINE''), (48, 84, [], ''VMT_BRAKES'')] :: run list)"
    unfolding two_runs_groups two_runs_length .
  moreover from inst have "(0::nat) < 1 \<and> 1 < length (find_groups False two_runs) \<longrightarrow>
      fst (snd (find_groups False two_runs ! 0)) \<le> fst (find_groups False two_runs ! 1)"
    by blast
  then have "fst (snd (find_groups False two_runs ! 0)) \<le> fst (find_groups False two_runs ! 1)"
    by (simp add: two_runs_groups)
  ultimately show ?thesis by (simp add: two_runs_groups)
qed


text \<open>
  C2. Let \<open>groups\<close> be runs ordered within the text, as the grouping loops produce them.
  Every character of the text at a position outside every run is a character of the new
  text, at the position it is moved to by the runs before it (\<open>new_index\<close>: its position
  plus the lengths of the replacements put in before it, minus the lengths of the spans
  they replaced). This holds in particular for the runs found in any text under either
  policy. With no run the new text is the text.
\<close>

theorem apply_replacements_preserves_outside:
  "(ordered_spans 0 (length text) groups \<longrightarrow>
      (\<forall>i < length text. outside groups i \<longrightarrow>
         new_index groups i < length (apply_replacements text groups) \<and>
         apply_replacements text groups ! new_index groups i = text ! i)) \<and>
   (\<forall>i < length text. outside (find_groups any text) i \<longrightarrow>
      new_index (find_groups any text) i < length (apply_replacements text (find_groups any text)) \<and>
      apply_replacements text (find_groups any text) ! new_index (find_groups any text) i
        = text ! i) \<and>
   apply_replacements text [] = text"
proof -
  have a: "new_index gs i < length (apply_replacements text gs) \<and>
           apply_replacements text gs ! new_index gs i = text ! i"
    if "ordered_spans 0 (length text) gs" "i < length text" "outside gs i" for gs i
    using splice_from_nth [of 0 "text" gs i] that by (simp add: apply_replacements_splice)
  have "apply_replacements text [] = text"
    by (simp add: apply_replacements_splice)
  with a find_groups_ordered [of "text" any] show ?thesis by blast
qed

theorem apply_replacements_preserves_outside_witness:
  "ordered_spans 0 (length two_runs) (find_groups False two_runs) \<and>
   40 < length two_runs \<and> outside (find_groups False two_runs) 40 \<and>
   new_index (find_groups False two_runs) 40 = 569 \<and>
   apply_replacements two_runs (find_groups False two_runs) ! 569 = two_runs ! 40 \<and>
   two_runs ! 40 = CHR ''-''"
proof -
  have o: "ordered_spans 0 (length two_runs) (find_groups False two_runs)"
    by (simp add: two_runs_groups two_runs_length)
  have l: "40 < length two_runs" by (simp add: two_runs_length)
  have out: "outside (find_groups False two_runs) 40"
    by (simp add: two_runs_groups outside_def)
  have len: "length (build_items [] ''VMT_ENGINE'') = 565"
    by (simp add: build_items_blocks item_text_def str_of_nat_vals)
  have n: "new_index (find_groups False two_runs) 40 = 569"
    by (simp add: two_runs_groups new_index_def inserted_def removed_def len)
  from apply_replacements_preserves_outside [of two_runs "find_groups False two_runs" False]
       o l out
  have "apply_replacements two_runs (find_groups False two_runs)
          ! new_index (find_groups False two_runs) 40 = two_runs ! 40"
    by blast
  with o l out n show ?thesis by (simp add: two_runs_def)
qed









text \<open>
  C10. For every run found in a text: the run ends exactly at the end of a closing
  \<open></Item>\<close> tag of the text, so whatever follows that tag is outside the span; the
  rendering that replaces the run ends with \<open></Item>\<close> and a line feed; and in the new
  text this rendering is followed by the characters that followed the run in the text,
  up to the next run or the end. After the last closing tag of a replaced run the new
  text therefore has the line feed of the rendering and then what the text had there:
  one line feed more than before.
\<close>

theorem replacement_adds_line_feed:
  "find_groups any text = g1 @ (s, e, indent, vt) # g2 \<longrightarrow>
     7 \<le> e \<and> e \<le> length text \<and> map tolower (slice text (e - 7) e) = ''</item>'' \<and>
     (\<exists>body. build_items indent vt = body @ ''</Item>'' @ ''\<newline>'' \<and>
        (\<exists>pre post. apply_replacements text (find_groups any text) =
           pre @ body @ ''</Item>'' @ ''\<newline>'' @
           slice text e (case g2 of [] \<Rightarrow> length text | (s2, r2) # g \<Rightarrow> s2) @ post))"
proof
  assume g: "find_groups any text = g1 @ (s, e, indent, vt) # g2"
  then have "(s, e, indent, vt) \<in> set (group_list any text (scan_items text))"
    by (simp add: find_groups_list [symmetric])
  from group_list_last_block [OF this] obtain s' i' v' where
    "(s', e, i', v') \<in> set (scan_items text)" by blast
  from scan_items_close_tag [OF this]
  have close: "7 \<le> e \<and> e \<le> length text \<and> map tolower (slice text (e - 7) e) = ''</item>''" .
  define body where \<open>body =
     canonical_block indent ''25'' vt @ canonical_block indent ''50'' vt @
     canonical_block indent ''75'' vt @
     indent @ ''<Item>\<newline>'' @
     indent @ ''  <identifier />\<newline>'' @
     indent @ ''  <modifier value="100" />\<newline>'' @
     indent @ ''  <audioApply value="1.000000" />\<newline>'' @
     indent @ ''  <weight value="0" />\<newline>'' @
     indent @ ''  <type>'' @ vt @ ''</type>\<newline>'' @
     indent\<close>
  have b: "build_items indent vt = body @ ''</Item>'' @ ''\<newline>''"
    unfolding build_items_canonical body_def
    by (simp add: canonical_block_def)
  from splice_from_append [of "text" 0 g1] obtain pre where
    pre: "\<And>g. splice_from text 0 (g1 @ g)
           = pre @ splice_from text (if g1 = [] then 0 else fst (snd (last g1))) g"
    by blast
  let ?p = "if g1 = [] then 0 else fst (snd (last g1))"
  let ?nxt = "case g2 of [] \<Rightarrow> length text | (s2, r2) # g \<Rightarrow> s2"
  have "\<exists>post. splice_from text e g2 = slice text e ?nxt @ post"
  proof (cases g2)
    case Nil
    then show ?thesis by (simp add: slice_def)
  next
    case (Cons r g)
    obtain s2 e2 i2 v2 where "r = (s2, e2, i2, v2)" by (cases r) auto
    with Cons show ?thesis by simp
  qed
  then obtain post where post: "splice_from text e g2 = slice text e ?nxt @ post" ..
  have "apply_replacements text (find_groups any text)
          = (pre @ slice text ?p s) @ body @ ''</Item>'' @ ''\<newline>'' @ slice text e ?nxt @ post"
    unfolding apply_replacements_splice g pre by (simp add: b post)
  then have "\<exists>pre post. apply_replacements text (find_groups any text) =
           pre @ body @ ''</Item>'' @ ''\<newline>'' @ slice text e ?nxt @ post"
    by blast
  with b close show "7 \<le> e \<and> e \<le> length text \<and> map tolower (slice text (e - 7) e) = ''</item>'' \<and>
     (\<exists>body. build_items indent vt = body @ ''</Item>'' @ ''\<newline>'' \<and>
        (\<exists>pre post. apply_replacements text (find_groups any text) =
           pre @ body @ ''</Item>'' @ ''\<newline>'' @ slice text e ?nxt @ post))"
    by blast
qed

theorem replacement_adds_line_feed_witness:
  "find_groups False two_runs = [] @ (0, 36, [], ''VMT_ENGINE'') # [(48, 84, [], ''VMT_BRAKES'')] \<and>
   (7::nat) \<le> 36 \<and> 36 \<le> length two_runs \<and>
   map tolower (slice two_runs (36 - 7) 36) = ''</item>'' \<and>
   (\<exists>body. build_items [] ''VMT_ENGINE'' = body @ ''</Item>'' @ ''\<newline>'' \<and>
      (\<exists>pre post. apply_replacements two_runs (find_groups False two_runs) =
         pre @ body @ ''</Item>'' @ ''\<newline>'' @ slice two_runs 36 48 @ post)) \<and>
   slice two_runs 36 48 = ''\<newline><!-- c -->\<newline>''"
proof -
  have g: "find_groups False two_runs
             = [] @ (0, 36, [], ''VMT_ENGINE'') # [(48, 84, [], ''VMT_BRAKES'')]"
    by (simp add: two_runs_groups)
  from replacement_adds_line_feed
         [of False two_runs "[]" 0 36 "[]" "''VMT_ENGINE''" "[(48, 84, [], ''VMT_BRAKES'')]",
          THEN mp, OF g]
  have c: "(7::nat) \<le> 36 \<and> 36 \<le> length two_runs \<and>
   map tolower (slice two_runs (36 - 7) 36) = ''</item>'' \<and>
   (\<exists>body. build_items [] ''VMT_ENGINE'' = body @ ''</Item>'' @ ''\<newline>'' \<and>
      (\<exists>pre post. apply_replacements two_runs (find_groups False two_runs) =
         pre @ body @ ''</Item>'' @ ''\<newline>'' @ slice two_runs 36 48 @ post))"
    by simp
  have f: "slice two_runs 36 48 = ''\<newline><!-- c -->\<newline>''"
    by (simp add: two_runs_def slice_def)
  show ?thesis
    apply (rule conjI [OF g])
    apply (rule conjI [OF c [THEN conjunct1]])
    apply (rule conjI [OF c [THEN conjunct2, THEN conjunct1]])
    apply (rule conjI [OF c [THEN conjunct2, THEN conjunct2, THEN conjunct1]])
    apply (rule conjI [OF c [THEN conjunct2, THEN conjunct2, THEN conjunct2]])
    apply (rule f)
    done
qed


text \<open>
  C5. A scanned block is replaced, that is, it lies within a run, if and only if its type
  qualifies: the type is present, starts with \<open>VMT_\<close> in any case and, unless the
  any-type override is active, is one of \<open>VMT_GEARBOX\<close>, \<open>VMT_BRAKES\<close>, \<open>VMT_ENGINE\<close>
  once upper-cased. When the outer loop is at a block, it starts a run there if the type
  qualifies and steps over the block otherwise. When no scanned block qualifies there is
  no run and the file keeps its text. \<open>VMT_CUSTOM_XYZ\<close> qualifies under the unrestricted
  policy only; \<open>VMT_SUSPENSION\<close> does not qualify under the restricted one.
\<close>

theorem block_replaced_iff_qualifies:
  "(\<forall>(s, e, indent, vtype) \<in> set (scan_items text).
      replaced (find_groups any text) (s, e, indent, vtype) \<longleftrightarrow> qualifies any vtype) \<and>
   (i < length items \<and> items ! i = (s, e, indent, vtype) \<longrightarrow>
      (qualifies any vtype \<longrightarrow>
         (\<exists>j group_end. i < j \<and>
            group_loop any text items i groups =
              group_loop any text items j
                (groups @ [(s, group_end, indent, upper (the vtype))]))) \<and>
      (\<not> qualifies any vtype \<longrightarrow>
         group_loop any text items i groups = group_loop any text items (i + 1) groups)) \<and>
   ((\<forall>(s, e, indent, vtype) \<in> set (scan_items text). \<not> qualifies any vtype) \<longrightarrow>
      find_groups any text = [] \<and> file_after any text = text) \<and>
   qualifies True (Some ''VMT_CUSTOM_XYZ'') \<and> \<not> qualifies False (Some ''VMT_CUSTOM_XYZ'') \<and>
   \<not> qualifies False (Some ''VMT_SUSPENSION'') \<and> qualifies False (Some ''vmt_Engine'')"
proof (intro conjI)
  have st: "\<forall>(s, e, indent, vtype) \<in> set (scan_items text). \<forall>v. vtype = Some v \<longrightarrow> strip v = v"
    using scan_items_stripped by blast
  show "\<forall>(s, e, indent, vtype) \<in> set (scan_items text).
      replaced (find_groups any text) (s, e, indent, vtype) \<longleftrightarrow> qualifies any vtype"
  proof (intro ballI)
    fix b assume b: "b \<in> set (scan_items text)"
    obtain s e indent vtype where b_eq: "b = (s, e, indent, vtype)" by (cases b) auto
    from group_list_replaced [OF scan_items_ordered st b, of any "text"]
    have "replaced (find_groups any text) b \<longleftrightarrow> \<not> skipped any b"
      by (simp add: find_groups_list)
    then show "case b of (s, e, indent, vtype) \<Rightarrow>
      replaced (find_groups any text) (s, e, indent, vtype) \<longleftrightarrow> qualifies any vtype"
      by (simp add: b_eq skipped_iff_not_qualifies)
  qed
next
  show "i < length items \<and> items ! i = (s, e, indent, vtype) \<longrightarrow>
      (qualifies any vtype \<longrightarrow>
         (\<exists>j group_end. i < j \<and>
            group_loop any text items i groups =
              group_loop any text items j
                (groups @ [(s, group_end, indent, upper (the vtype))]))) \<and>
      (\<not> qualifies any vtype \<longrightarrow>
         group_loop any text items i groups = group_loop any text items (i + 1) groups)"
  proof (intro impI conjI)
    assume a: "i < length items \<and> items ! i = (s, e, indent, vtype)" and q: "qualifies any vtype"
    then have "\<not> skipped any (items ! i)" by (simp add: skipped_iff_not_qualifies)
    from group_loop_run [OF _ _ this, of s e indent vtype "text" groups] a
    show "\<exists>j group_end. i < j \<and>
            group_loop any text items i groups =
              group_loop any text items j
                (groups @ [(s, group_end, indent, upper (the vtype))])"
      by (intro exI [of _ "i + 1 + length (run_members text (upper (the vtype)) e (drop (i + 1) items))"]
                exI [of _ "last_end e (run_members text (upper (the vtype)) e (drop (i + 1) items))"])
         simp
  next
    assume a: "i < length items \<and> items ! i = (s, e, indent, vtype)" and q: "\<not> qualifies any vtype"
    then have "skipped any (items ! i)" by (simp add: skipped_iff_not_qualifies)
    with a show "group_loop any text items i groups = group_loop any text items (i + 1) groups"
      by (intro group_loop_skip) simp_all
  qed
next
  show "(\<forall>(s, e, indent, vtype) \<in> set (scan_items text). \<not> qualifies any vtype) \<longrightarrow>
      find_groups any text = [] \<and> file_after any text = text"
  proof
    assume "\<forall>(s, e, indent, vtype) \<in> set (scan_items text). \<not> qualifies any vtype"
    then have sk: "\<forall>b \<in> set (scan_items text). skipped any b"
      by (auto simp: skipped_iff_not_qualifies)
    have "group_list any text bs = []" if "\<forall>b \<in> set bs. skipped any b" for bs
      using that by (induction bs) (simp_all add: group_list.simps)
    with sk have "find_groups any text = []" by (simp add: find_groups_list)
    then show "find_groups any text = [] \<and> file_after any text = text"
      by (simp add: file_after_def normalize_def)
  qed
next
  show "qualifies True (Some ''VMT_CUSTOM_XYZ'')" by code_simp
  show "\<not> qualifies False (Some ''VMT_CUSTOM_XYZ'')" by code_simp
  show "\<not> qualifies False (Some ''VMT_SUSPENSION'')" by code_simp
  show "qualifies False (Some ''vmt_Engine'')" by code_simp
qed

theorem block_replaced_iff_qualifies_witness:
  "(48, 84, [], Some ''vmt_brakes'') \<in> set (scan_items two_runs) \<and>
   qualifies False (Some ''vmt_brakes'') \<and>
   replaced (find_groups False two_runs) (48, 84, [], Some ''vmt_brakes'') \<and>
   (0::nat) < length (scan_items two_runs) \<and>
   scan_items two_runs ! 0 = (0, 36, [], Some ''VMT_ENGINE'') \<and>
   qualifies False (Some ''VMT_ENGINE'') \<and>
   (\<exists>j group_end. 0 < j \<and>
      group_loop False two_runs (scan_items two_runs) 0 [] =
        group_loop False two_runs (scan_items two_runs) j
          ([] @ [(0, group_end, [], upper (the (Some ''VMT_ENGINE'')))])) \<and>
   scan_items scenario_D = [(0, 40, [], Some ''VMT_SUSPENSION'')] \<and>
   \<not> qualifies False (Some ''VMT_SUSPENSION'') \<and>
   find_groups False scenario_D = [] \<and> file_after False scenario_D = scenario_D"
proof -
  have mem: "(48, 84, [], Some ''vmt_brakes'') \<in> set (scan_items two_runs)"
    by (simp add: two_runs_items)
  note a = block_replaced_iff_qualifies
             [of two_runs False 0 "scan_items two_runs" 0 36 "[]" "Some ''VMT_ENGINE''" "[]"]
  from bspec [OF a [THEN conjunct1] mem]
  have r: "replaced (find_groups False two_runs) (48, 84, [], Some ''vmt_brakes'')"
    using vmt_brakes_qualifies by simp
  have i: "(0::nat) < length (scan_items two_runs) \<and>
           scan_items two_runs ! 0 = (0, 36, [], Some ''VMT_ENGINE'')"
    by (simp add: two_runs_items)
  from a [THEN conjunct2, THEN conjunct1, THEN mp, OF i, THEN conjunct1, THEN mp,
          OF VMT_ENGINE_qualifies]
  have s: "\<exists>j group_end. 0 < j \<and>
      group_loop False two_runs (scan_items two_runs) 0 [] =
        group_loop False two_runs (scan_items two_runs) j
          ([] @ [(0, group_end, [], upper (the (Some ''VMT_ENGINE'')))])" .
  have d: "\<forall>(s, e, indent, vtype) \<in> set (scan_items scenario_D). \<not> qualifies False vtype"
    using VMT_SUSPENSION_not_qualifies by (simp add: scenario_D_items)
  from block_replaced_iff_qualifies [of scenario_D False, THEN conjunct2, THEN conjunct2,
         THEN conjunct1, THEN mp, OF d]
  have n: "find_groups False scenario_D = [] \<and> file_after False scenario_D = scenario_D" .
  show ?thesis
    apply (rule conjI [OF mem])
    apply (rule conjI [OF vmt_brakes_qualifies])
    apply (rule conjI [OF r])
    apply (rule conjI [OF i [THEN conjunct1]])
    apply (rule conjI [OF i [THEN conjunct2]])
    apply (rule conjI [OF VMT_ENGINE_qualifies])
    apply (rule conjI [OF s])
    apply (rule conjI [OF scenario_D_items])
    apply (rule conjI [OF VMT_SUSPENSION_not_qualifies])
    apply (rule n)
    done
qed


text \<open>
  C3. When the outer loop is at a qualifying block, the run it starts takes from the
  blocks that follow exactly the longest chain of blocks each of which has a type that,
  trimmed and upper-cased, equals the run's type, and is separated from the end of the
  run so far by white space only (of any length, line feeds included). The inner loop
  stops at the first block that fails this; the run ends with the last block taken and
  the outer loop goes on at the block that failed. So a next block of the same type after
  white space only is part of the run, and after anything else (or with another type) it
  is not: the run ends before it and the block is a fresh candidate.
\<close>

theorem run_takes_same_type_blocks_after_white_space:
  "i < length items \<and> items ! i = (s, e, indent, vtype) \<and> qualifies any vtype \<longrightarrow>
     (let vt = upper (the vtype);
          members = run_members text vt e (drop (i + 1) items)
      in take (length members) (drop (i + 1) items) = members \<and>
         extend_run text items vt (i + 1) e = (i + 1 + length members, last_end e members) \<and>
         group_loop any text items i groups =
           group_loop any text items (i + 1 + length members)
             (groups @ [(s, last_end e members, indent, vt)]) \<and>
         (i + 1 < length items \<and> same_type_ws text vt e (items ! (i + 1)) \<longrightarrow>
            members \<noteq> [] \<and> hd members = items ! (i + 1)) \<and>
         (i + 1 < length items \<and> \<not> same_type_ws text vt e (items ! (i + 1)) \<longrightarrow>
            group_loop any text items i groups =
              group_loop any text items (i + 1) (groups @ [(s, e, indent, vt)])))"
proof
  assume a: "i < length items \<and> items ! i = (s, e, indent, vtype) \<and> qualifies any vtype"
  then have i: "i < length items" and b: "items ! i = (s, e, indent, vtype)"
    and ns: "\<not> skipped any (items ! i)"
    by (simp_all add: skipped_iff_not_qualifies)
  let ?vt = "upper (the vtype)"
  let ?m = "run_members text ?vt e (drop (i + 1) items)"
  from ns b not_skipped_type [of any s e indent vtype] have vt: "?vt \<noteq> []" by auto
  have len: "length ?m \<le> length items - (i + 1)"
    using run_members_length [of "text" ?vt e "drop (i + 1) items"] by simp
  have p1: "take (length ?m) (drop (i + 1) items) = ?m" by (rule run_members_prefix)
  have p2: "extend_run text items ?vt (i + 1) e = (i + 1 + length ?m, last_end e ?m)"
    using i len by (simp add: extend_run_list extend_list_members [OF vt])
  have p3: "group_loop any text items i groups =
           group_loop any text items (i + 1 + length ?m)
             (groups @ [(s, last_end e ?m, indent, ?vt)])"
    by (rule group_loop_run [OF i b ns])
  have p4: "?m \<noteq> [] \<and> hd ?m = items ! (i + 1)"
    if "i + 1 < length items \<and> same_type_ws text ?vt e (items ! (i + 1))"
  proof -
    from that have "drop (i + 1) items = items ! (i + 1) # drop (Suc (i + 1)) items"
      by (simp add: Cons_nth_drop_Suc)
    with that show ?thesis by simp
  qed
  have p5: "group_loop any text items i groups =
              group_loop any text items (i + 1) (groups @ [(s, e, indent, ?vt)])"
    if "i + 1 < length items \<and> \<not> same_type_ws text ?vt e (items ! (i + 1))"
  proof -
    from that have "drop (i + 1) items = items ! (i + 1) # drop (Suc (i + 1)) items"
      by (simp add: Cons_nth_drop_Suc)
    with that have "?m = []" by simp
    with p3 show ?thesis by simp
  qed
  from p1 p2 p3 p4 p5
  show "let vt = upper (the vtype);
          members = run_members text vt e (drop (i + 1) items)
      in take (length members) (drop (i + 1) items) = members \<and>
         extend_run text items vt (i + 1) e = (i + 1 + length members, last_end e members) \<and>
         group_loop any text items i groups =
           group_loop any text items (i + 1 + length members)
             (groups @ [(s, last_end e members, indent, vt)]) \<and>
         (i + 1 < length items \<and> same_type_ws text vt e (items ! (i + 1)) \<longrightarrow>
            members \<noteq> [] \<and> hd members = items ! (i + 1)) \<and>
         (i + 1 < length items \<and> \<not> same_type_ws text vt e (items ! (i + 1)) \<longrightarrow>
            group_loop any text items i groups =
              group_loop any text items (i + 1) (groups @ [(s, e, indent, vt)]))"
    unfolding Let_def by blast
qed

theorem run_takes_same_type_blocks_after_white_space_witness:
  "scan_items scenario_B ! 0 = (0, 36, [], Some ''VMT_ENGINE'') \<and>
   qualifies False (Some ''VMT_ENGINE'') \<and>
   slice scenario_B 73 75 = ''\<newline>\<newline>'' \<and>
   find_groups False scenario_B = [(0, 185, [], ''VMT_ENGINE'')] \<and>
   slice scenario_C 73 85 = ''\<newline><!-- c -->\<newline>'' \<and>
   group_loop False scenario_C (scan_items scenario_C) 0 [] =
     group_loop False scenario_C (scan_items scenario_C) 2 [(0, 73, [], ''VMT_ENGINE'')]"
proof -
  let ?B = "[(0, 36, [], Some ''VMT_ENGINE''), (37, 73, [], Some ''VMT_ENGINE''),
      (75, 111, [], Some ''VMT_ENGINE''), (112, 148, [], Some ''VMT_ENGINE''),
      (149, 185, [], Some ''VMT_ENGINE'')] :: block list"
  let ?C = "[(0, 36, [], Some ''VMT_ENGINE''), (37, 73, [], Some ''VMT_ENGINE''),
      (85, 121, [], Some ''VMT_ENGINE''), (122, 158, [], Some ''VMT_ENGINE''),
      (159, 195, [], Some ''VMT_ENGINE'')] :: block list"
  have hB: "0 < length ?B \<and> ?B ! 0 = (0, 36, [], Some ''VMT_ENGINE'') \<and>
            qualifies False (Some ''VMT_ENGINE'')"
    using VMT_ENGINE_qualifies by simp
  from run_takes_same_type_blocks_after_white_space
         [of 0 ?B 0 36 "[]" "Some ''VMT_ENGINE''" False scenario_B "[]", THEN mp, OF hB]
  have "group_loop False scenario_B ?B 0 [] =
          group_loop False scenario_B ?B (Suc (Suc (Suc (Suc (Suc 0)))))
            [(0, 185, [], ''VMT_ENGINE'')]"
    by (simp add: Let_def upper_VMT_ENGINE scenario_B_members del: run_members.simps)
  also have "\<dots> = [(0, 185, [], ''VMT_ENGINE'')]"
    by (rule group_loop_exit) simp
  finally have gB: "find_groups False scenario_B = [(0, 185, [], ''VMT_ENGINE'')]"
    by (simp add: find_groups_def scenario_B_items)
  have hC: "0 < length ?C \<and> ?C ! 0 = (0, 36, [], Some ''VMT_ENGINE'') \<and>
            qualifies False (Some ''VMT_ENGINE'')"
    using VMT_ENGINE_qualifies by simp
  from run_takes_same_type_blocks_after_white_space
         [of 0 ?C 0 36 "[]" "Some ''VMT_ENGINE''" False scenario_C "[]", THEN mp, OF hC]
  have "group_loop False scenario_C ?C 0 [] =
          group_loop False scenario_C ?C (Suc (Suc 0)) [(0, 73, [], ''VMT_ENGINE'')]"
    by (simp add: Let_def upper_VMT_ENGINE scenario_C_members del: run_members.simps)
  then have "group_loop False scenario_C ?C 0 [] =
          group_loop False scenario_C ?C 2 [(0, 73, [], ''VMT_ENGINE'')]"
    by (simp only: numeral_2_eq_2)
  then have gC: "group_loop False scenario_C (scan_items scenario_C) 0 [] =
     group_loop False scenario_C (scan_items scenario_C) 2 [(0, 73, [], ''VMT_ENGINE'')]"
    by (simp only: scenario_C_items)
  have i0: "scan_items scenario_B ! 0 = (0, 36, [], Some ''VMT_ENGINE'')"
    by (simp add: scenario_B_items)
  show ?thesis
    apply (rule conjI [OF i0])
    apply (rule conjI [OF VMT_ENGINE_qualifies])
    apply (rule conjI [OF scenario_C_gap [THEN conjunct2]])
    apply (rule conjI [OF gB])
    apply (rule conjI [OF scenario_C_gap [THEN conjunct1]])
    apply (rule gC)
    done
qed


text \<open>
  C1. The transformation is not idempotent. Take a text made of item blocks laid out
  like a rendering (any modifier values), all of one stripped, upper-case type that the
  policy accepts, followed by any number of line feeds. The first application replaces
  the blocks by the rendering for their type; the second application finds the four
  rendered blocks as one run again and replaces it by the same rendering, whose final
  line feed comes on top of the line feed that followed the run. Its output is its input
  with one more line feed, and so for every further application.
\<close>

theorem second_application_adds_line_feed:
  assumes "\<forall>c \<in> set indent. c = CHR '' '' \<or> c = CHR 0x09"
    and "\<forall>c \<in> set vtype. c \<noteq> CHR ''<''" "strip vtype = vtype" "upper vtype = vtype"
      "qualifies any (Some vtype)"
    and "\<forall>val \<in> set vals. \<forall>c \<in> set val. c \<noteq> CHR ''<''" "vals \<noteq> []"
  shows "file_after any (canonical_text indent vtype vals @ replicate k (CHR 0x0A))
           = build_items indent vtype @ replicate (k + 1) (CHR 0x0A)
       \<and> file_after any (file_after any (canonical_text indent vtype vals @ replicate k (CHR 0x0A)))
           = build_items indent vtype @ replicate (k + 2) (CHR 0x0A)
       \<and> file_after any (file_after any (canonical_text indent vtype vals @ replicate k (CHR 0x0A)))
           \<noteq> file_after any (canonical_text indent vtype vals @ replicate k (CHR 0x0A))
       \<and> (file_after any ^^ n) (file_after any (canonical_text indent vtype vals @ replicate k (CHR 0x0A)))
           = file_after any (canonical_text indent vtype vals @ replicate k (CHR 0x0A))
             @ replicate n (CHR 0x0A)"
proof -
  let ?x = "canonical_text indent vtype vals @ replicate k (CHR 0x0A)"
  let ?b = "build_items indent vtype"
  have 1: "file_after any ?x = ?b @ replicate (k + 1) (CHR 0x0A)"
    using file_after_canonical_text [OF assms, of k] by simp
  have 2: "file_after any (?b @ replicate (k + 1) (CHR 0x0A)) = ?b @ replicate (k + 2) (CHR 0x0A)"
    using file_after_build_items [OF assms(1-5), of "k + 1"] by simp
  have 3: "(file_after any ^^ n) (?b @ replicate (k + 1) (CHR 0x0A))
             = (?b @ replicate (k + 1) (CHR 0x0A)) @ replicate n (CHR 0x0A)"
    using file_after_funpow [OF assms(1-5), of n "k + 1"]
    by (simp add: replicate_add)
  have 4: "?b @ replicate (k + 2) (CHR 0x0A) \<noteq> ?b @ replicate (k + 1) (CHR 0x0A)"
  proof
    assume "?b @ replicate (k + 2) (CHR 0x0A) = ?b @ replicate (k + 1) (CHR 0x0A)"
    then have "length (?b @ replicate (k + 2) (CHR 0x0A)) = length (?b @ replicate (k + 1) (CHR 0x0A))"
      by (rule arg_cong)
    then show False by simp
  qed
  show ?thesis
    unfolding 1 2 3 using 4 by simp
qed

theorem second_application_adds_line_feed_witness:
  "file_after False ''<Item><type>vmt_engine</type></Item>\<newline>''
     = build_items [] ''VMT_ENGINE'' @ ''\<newline>''
   \<and> file_after False (build_items [] ''VMT_ENGINE'' @ ''\<newline>'')
     = build_items [] ''VMT_ENGINE'' @ ''\<newline>\<newline>''
   \<and> file_after False (file_after False ''<Item><type>vmt_engine</type></Item>\<newline>'')
     \<noteq> file_after False ''<Item><type>vmt_engine</type></Item>\<newline>''"
proof -
  have s: "strip ''VMT_ENGINE'' = ''VMT_ENGINE''" by code_simp
  have "file_after False (canonical_text [] ''VMT_ENGINE'' [''25'', ''50'', ''75'', ''100'']
                           @ replicate 1 (CHR 0x0A))
          = build_items [] ''VMT_ENGINE'' @ replicate (1 + 1) (CHR 0x0A)"
    by (rule conjunct1,
        rule second_application_adds_line_feed
          [of "[]" "''VMT_ENGINE''" False "[''25'', ''50'', ''75'', ''100'']" 1 0,
           OF _ _ s upper_VMT_ENGINE VMT_ENGINE_qualifies])
       simp_all
  then have 2: "file_after False (build_items [] ''VMT_ENGINE'' @ ''\<newline>'')
                  = build_items [] ''VMT_ENGINE'' @ ''\<newline>\<newline>''"
    by (simp add: build_items_canonical_text [symmetric])
  have 4: "build_items [] ''VMT_ENGINE'' @ ''\<newline>\<newline>'' \<noteq> build_items [] ''VMT_ENGINE'' @ ''\<newline>''"
    by simp
  show ?thesis
    unfolding one_line_item_first 2 using 4 by simp
qed

end
